theory Spec2Isabelle
  imports Complex_Main "HOL-Library.Sublist"
begin

section \<open>JavaScript strings\<close>

text \<open>
  A JavaScript string is a sequence of UTF-16 code units, and \<open>length\<close>, \<open>slice\<close> and the
  regular expressions of the source (none has the \<open>u\<close> flag) all count code units. A code
  unit is modelled as a natural number, a string as a list of them. \<open>js\<close> turns an ASCII
  literal into such a list; code units beyond ASCII are written as numbers
  (8230 is the ellipsis, 8212 the em dash, 9834 the musical note, 65279 the byte-order mark).
\<close>

type_synonym jchar = nat
type_synonym jstr = "nat list"

definition js :: "string \<Rightarrow> jstr" where
  "js s = map of_char s"

text \<open>The class \<open>\s\<close> of a regular expression, which is also what \<open>trim()\<close> removes:
  WhiteSpace and LineTerminator of the language definition.\<close>

definition isSpace :: "jchar \<Rightarrow> bool" where
  "isSpace c = (c = 9 \<or> c = 10 \<or> c = 11 \<or> c = 12 \<or> c = 13 \<or> c = 32 \<or> c = 160 \<or> c = 5760
     \<or> (8192 \<le> c \<and> c \<le> 8202) \<or> c = 8232 \<or> c = 8233 \<or> c = 8239 \<or> c = 8287
     \<or> c = 12288 \<or> c = 65279)"

definition isDigit :: "jchar \<Rightarrow> bool" where
  "isDigit c = (48 \<le> c \<and> c \<le> 57)"

definition isUpper :: "jchar \<Rightarrow> bool" where
  "isUpper c = (65 \<le> c \<and> c \<le> 90)"

definition isLower :: "jchar \<Rightarrow> bool" where
  "isLower c = (97 \<le> c \<and> c \<le> 122)"

text \<open>The class \<open>\w\<close>: \<open>[A-Za-z0-9_]\<close>.\<close>

definition isWord :: "jchar \<Rightarrow> bool" where
  "isWord c = (isUpper c \<or> isLower c \<or> isDigit c \<or> c = 95)"

text \<open>The class \<open>.\<close>: everything but the four line terminators.\<close>

definition isDot :: "jchar \<Rightarrow> bool" where
  "isDot c = (c \<noteq> 10 \<and> c \<noteq> 13 \<and> c \<noteq> 8232 \<and> c \<noteq> 8233)"

definition trim :: "jstr \<Rightarrow> jstr" where
  "trim s = rev (dropWhile isSpace (rev (dropWhile isSpace s)))"

text \<open>\<open>s.slice(0, e)\<close>: a negative end counts from the end of the string.\<close>

definition sliceTo :: "jstr \<Rightarrow> int \<Rightarrow> jstr" where
  "sliceTo s e = take (nat (if e < 0 then max (int (length s) + e) 0 else min e (int (length s)))) s"

text \<open>\<open>s.lastIndexOf(pat)\<close>: the greatest index at which \<open>pat\<close> starts, or -1.\<close>

definition lastIndexOf :: "jstr \<Rightarrow> jstr \<Rightarrow> int" where
  "lastIndexOf s pat =
     (case filter (\<lambda>i. prefix pat (drop i s)) (rev [0..<Suc (length s)]) of
        [] \<Rightarrow> - 1
      | i # _ \<Rightarrow> int i)"

text \<open>\<open>buf.join(" ")\<close>.\<close>

fun joinSp :: "jstr list \<Rightarrow> jstr" where
  "joinSp [] = []"
| "joinSp [x] = x"
| "joinSp (x # y # ys) = x @ [32] @ joinSp (y # ys)"

text \<open>\<open>raw.split("\n")\<close>: the pieces between line feeds, one more than there are line feeds.\<close>

fun splitLines :: "jstr \<Rightarrow> jstr list" where
  "splitLines [] = [[]]"
| "splitLines (c # cs) =
     (if c = 10 then [] # splitLines cs
      else (case splitLines cs of l # ls \<Rightarrow> (c # l) # ls | [] \<Rightarrow> [[c]]))"

text \<open>Numbers. A number of the source is a double. Here it is the real number it stands for
  (\<open>NaN\<close> and the infinities stand for none), and every operation of the source whose result
  need not be a double is followed by \<open>fround\<close>, the rounding that the language prescribes:
  to the nearest number with 53 significant bits, a tie going to the one whose last bit is 0.
  \<open>ulp x\<close> is the distance between such numbers around \<open>x\<close>. The exponent is not bounded in
  \<open>fround\<close>. What the source rounds is a difference of two starts, the products, sums and
  quotient of \<open>tsToSec\<close>, and a quotient of a whole number by 3600 or by 60: on doubles none
  of these is below the least normal double unless it is exact, and only the difference can pass
  the greatest double, to an infinity, which compares with a double as the rounded real does.
  Whole numbers are integers where the source applies \<open>Math.floor\<close>, \<open>Math.max\<close> and \<open>%\<close>,
  which round nothing.\<close>

definition rne :: "real \<Rightarrow> int" where
  "rne y =
     (let f = \<lfloor>y\<rfloor>; d = y - of_int f
      in if d < 1 / 2 then f else if 1 / 2 < d then f + 1 else if even f then f else f + 1)"

definition ulp :: "real \<Rightarrow> real" where
  "ulp x = 2 powr (of_int \<lfloor>log 2 \<bar>x\<bar>\<rfloor> - 52)"

definition fround :: "real \<Rightarrow> real" where
  "fround x = (if x = 0 then 0 else of_int (rne (x / ulp x)) * ulp x)"

text \<open>\<open>String(n)\<close> of a whole number, and \<open>padStart(2, "0")\<close>. Below \<open>10\<^sup>2\<^sup>1\<close> the source
  prints decimal digits, from \<open>10\<^sup>2\<^sup>1\<close> on a first digit, the further digits after a point if
  there are any, and \<open>e+\<close> with the exponent. The digits here are those of the integer, the
  zeros at its end left out before an exponent: they are the digits of the source when the
  integer is a double and is at most \<open>2\<^sup>5\<^sup>3\<close> or has at most 15 digits before those zeros. For
  another double the source prints the shortest digits that tell it from the other doubles,
  and zeros: below \<open>10\<^sup>2\<^sup>1\<close> as many digits as here, not always the same ones.\<close>

fun digitsOf :: "nat \<Rightarrow> jstr" where
  "digitsOf n = (if n < 10 then [48 + n] else digitsOf (n div 10) @ [48 + n mod 10])"

declare digitsOf.simps [simp del]

definition stripZeros :: "jstr \<Rightarrow> jstr" where
  "stripZeros ds = rev (dropWhile (\<lambda>c. c = 48) (rev ds))"

definition numToString :: "int \<Rightarrow> jstr" where
  "numToString n =
     (if n < 0 then 45 # digitsOf (nat (- n))
      else if n < 10 ^ 21 then digitsOf (nat n)
      else (let ds = digitsOf (nat n); s = stripZeros ds
            in hd s # (if tl s = [] then [] else 46 # tl s) @ [101, 43] @ digitsOf (length ds - 1)))"

definition padStart2 :: "jstr \<Rightarrow> jstr" where
  "padStart2 s = replicate (2 - length s) 48 @ s"

text \<open>\<open>Number(s)\<close> of a string of decimal digits: the number it writes, which is the value
  of the source up to \<open>2\<^sup>5\<^sup>3\<close> (beyond, the source has the double nearest to it).\<close>

definition numOfDigits :: "jstr \<Rightarrow> nat" where
  "numOfDigits s = foldl (\<lambda>a c. 10 * a + (c - 48)) 0 s"

section \<open>Regular expressions\<close>

text \<open>
  Every regular expression of \<open>srt.ts\<close> is a sequence of single-character classes, each
  with a quantifier, between optional anchors. A piece is a class, the least and greatest
  number of repetitions (\<open>None\<close>: unbounded) and whether the quantifier is greedy or lazy.
  \<open>matchPieces\<close> is the backtracking matcher of the language definition on such sequences:
  a greedy piece tries the longest run first, a lazy one the shortest, and the first choice
  under which the rest of the pattern matches wins. It returns the number of code units each
  piece took.
\<close>

datatype quant = Greedy | Lazy

datatype piece = Piece "jchar \<Rightarrow> bool" nat "nat option" quant

primrec firstSome :: "('a \<Rightarrow> 'b option) \<Rightarrow> 'a list \<Rightarrow> 'b option" where
  "firstSome f [] = None"
| "firstSome f (x # xs) = (case f x of Some y \<Rightarrow> Some y | None \<Rightarrow> firstSome f xs)"

lemma firstSome_weak_cong [cong]: "xs = ys \<Longrightarrow> firstSome f xs = firstSome f ys"
  by simp

fun counts :: "piece \<Rightarrow> jstr \<Rightarrow> nat list" where
  "counts (Piece c lo hi q) s =
     (let avail = length (takeWhile c s);
          top = (case hi of None \<Rightarrow> avail | Some h \<Rightarrow> min h avail);
          ks = [lo..<Suc top]
      in case q of Greedy \<Rightarrow> rev ks | Lazy \<Rightarrow> ks)"

primrec matchPieces :: "piece list \<Rightarrow> bool \<Rightarrow> jstr \<Rightarrow> nat list option" where
  "matchPieces [] atEnd s = (if atEnd \<and> s \<noteq> [] then None else Some [])"
| "matchPieces (p # ps) atEnd s =
     firstSome (\<lambda>k. map_option ((#) k) (matchPieces ps atEnd (drop k s))) (counts p s)"

text \<open>The length of the match that starts at the head of the string.\<close>

definition matchLen :: "piece list \<Rightarrow> bool \<Rightarrow> jstr \<Rightarrow> nat option" where
  "matchLen ps atEnd s = map_option sum_list (matchPieces ps atEnd s)"

text \<open>An unanchored search: the leftmost position at which the pattern matches, with the
  lengths of the pieces there.\<close>

definition searchFirst :: "piece list \<Rightarrow> bool \<Rightarrow> jstr \<Rightarrow> (nat \<times> nat list) option" where
  "searchFirst ps atEnd s =
     firstSome (\<lambda>i. map_option (Pair i) (matchPieces ps atEnd (drop i s))) [0..<Suc (length s)]"

text \<open>\<open>re.test(s)\<close>, without and with a leading \<open>^\<close>.\<close>

definition testRe :: "piece list \<Rightarrow> bool \<Rightarrow> jstr \<Rightarrow> bool" where
  "testRe ps atEnd s = (searchFirst ps atEnd s \<noteq> None)"

definition testAnchored :: "piece list \<Rightarrow> bool \<Rightarrow> jstr \<Rightarrow> bool" where
  "testAnchored ps atEnd s = (matchPieces ps atEnd s \<noteq> None)"

text \<open>\<open>s.replace(re, rep)\<close> for a pattern without the \<open>g\<close> flag: the leftmost match only.\<close>

definition replaceFirst :: "piece list \<Rightarrow> bool \<Rightarrow> jstr \<Rightarrow> jstr \<Rightarrow> jstr" where
  "replaceFirst ps atEnd rep s =
     (case searchFirst ps atEnd s of
        None \<Rightarrow> s
      | Some (i, ls) \<Rightarrow> take i s @ rep @ drop (i + sum_list ls) s)"

text \<open>The same with a leading \<open>^\<close>: a match at position 0 or none.\<close>

definition replaceStart :: "piece list \<Rightarrow> jstr \<Rightarrow> jstr \<Rightarrow> jstr" where
  "replaceStart ps rep s =
     (case matchLen ps False s of None \<Rightarrow> s | Some n \<Rightarrow> rep @ drop n s)"

text \<open>\<open>s.replace(re, rep)\<close> for a pattern with the \<open>g\<close> flag: matches are looked for from
  left to right, each after the end of the one before; an empty match is replaced too and
  the search moves one code unit on.\<close>

fun replaceAll :: "piece list \<Rightarrow> jstr \<Rightarrow> jstr \<Rightarrow> jstr" where
  "replaceAll ps rep [] = (case matchLen ps False [] of Some _ \<Rightarrow> rep | None \<Rightarrow> [])"
| "replaceAll ps rep (c # cs) =
     (case matchLen ps False (c # cs) of
        None \<Rightarrow> c # replaceAll ps rep cs
      | Some 0 \<Rightarrow> rep @ c # replaceAll ps rep cs
      | Some (Suc n) \<Rightarrow> rep @ replaceAll ps rep (drop n cs))"

section \<open>srt.ts: time stamps and line cleaning\<close>

record SrtEntry =
  e_index :: nat
  e_start :: real
  e_end :: real
  e_text :: jstr

definition pOne :: "(jchar \<Rightarrow> bool) \<Rightarrow> piece" where
  "pOne c = Piece c 1 (Some 1) Greedy"

definition pOpt :: "(jchar \<Rightarrow> bool) \<Rightarrow> piece" where
  "pOpt c = Piece c 0 (Some 1) Greedy"

definition pPlus :: "(jchar \<Rightarrow> bool) \<Rightarrow> piece" where
  "pPlus c = Piece c 1 None Greedy"

definition pStar :: "(jchar \<Rightarrow> bool) \<Rightarrow> piece" where
  "pStar c = Piece c 0 None Greedy"

definition ch :: "jchar \<Rightarrow> jchar \<Rightarrow> bool" where
  "ch a c = (c = a)"

text \<open>\<open>TS_RE\<close>:
  \<^verbatim>\<open>/(\d{2}):(\d{2}):(\d{2}),(\d{3})\s*-->\s*(\d{2}):(\d{2}):(\d{2}),(\d{3})/\<close>.
  The eight groups are the pieces 0, 2, 4, 6, 12, 14, 16 and 18.\<close>

definition TS_RE :: "piece list" where
  "TS_RE =
     [Piece isDigit 2 (Some 2) Greedy, pOne (ch 58), Piece isDigit 2 (Some 2) Greedy, pOne (ch 58),
      Piece isDigit 2 (Some 2) Greedy, pOne (ch 44), Piece isDigit 3 (Some 3) Greedy,
      pStar isSpace, pOne (ch 45), pOne (ch 45), pOne (ch 62), pStar isSpace,
      Piece isDigit 2 (Some 2) Greedy, pOne (ch 58), Piece isDigit 2 (Some 2) Greedy, pOne (ch 58),
      Piece isDigit 2 (Some 2) Greedy, pOne (ch 44), Piece isDigit 3 (Some 3) Greedy]"

text \<open>The text of piece \<open>k\<close> of a match found at position \<open>i\<close>.\<close>

definition groupAt :: "jstr \<Rightarrow> nat \<Rightarrow> nat list \<Rightarrow> nat \<Rightarrow> jstr" where
  "groupAt s i ls k = take (ls ! k) (drop (i + sum_list (take k ls)) s)"

text \<open>\<open>tsToSec\<close>, every product, sum and quotient rounded as the source rounds it. The four
  strings are groups of two or three digits of \<open>TS_RE\<close>, where \<open>Number\<close> is exact and
  \<open>|| 0\<close> changes nothing.\<close>

definition tsToSec :: "jstr \<Rightarrow> jstr \<Rightarrow> jstr \<Rightarrow> jstr \<Rightarrow> real" where
  "tsToSec h m s ms =
     (let hh = real (numOfDigits h); mm = real (numOfDigits m);
          ss = real (numOfDigits s); mss = real (numOfDigits ms)
      in fround (fround (fround (fround (hh * 3600) + fround (mm * 60)) + ss) + fround (mss / 1000)))"

text \<open>\<open>secToHHMM\<close>: the two quotients are rounded, the remainder is not.\<close>

definition secToHHMM :: "real \<Rightarrow> jstr" where
  "secToHHMM sec =
     (let t = max 0 \<lfloor>sec\<rfloor>;
          hh = \<lfloor>fround (of_int t / 3600)\<rfloor>;
          mm = \<lfloor>fround (of_int (t mod 3600) / 60)\<rfloor>
      in (if hh > 0 then padStart2 (numToString hh) @ [58] else []) @ padStart2 (numToString mm))"

text \<open>The patterns of \<open>cleanLine\<close>, in the order of the source. The pattern of the bracketed
  cues has the \<open>i\<close> flag; without the \<open>u\<close> flag a code unit from 128 on is never folded onto an
  ASCII one, so that \<open>[A-Za-z ]\<close> still is the ASCII letters and the space, and the other
  classes of that pattern hold no cased character.\<close>

definition reBom :: "piece list" where
  "reBom = [pOne (ch 65279)]"

definition reCtrl :: "piece list" where
  "reCtrl = [pOne (\<lambda>c. c \<le> 31)]"

definition reHtml :: "piece list" where
  "reHtml = [pOne (ch 60), pPlus (\<lambda>c. c \<noteq> 62), pOne (ch 62)]"

definition reAss :: "piece list" where
  "reAss = [pOne (ch 123), pOne (ch 92), pPlus (\<lambda>c. c \<noteq> 125), pOne (ch 125)]"

definition isLabelChar :: "jchar \<Rightarrow> bool" where
  "isLabelChar c = (isUpper c \<or> isLower c \<or> isDigit c \<or> c = 46 \<or> c = 95 \<or> c = 32 \<or> c = 45)"

definition reSpeaker :: "piece list" where
  "reSpeaker =
     [pOpt (\<lambda>c. c = 91 \<or> c = 40), pOne isUpper, Piece isLabelChar 0 (Some 30) Greedy,
      pOpt (\<lambda>c. c = 93 \<or> c = 41), pOne (ch 58), pPlus isSpace]"

definition reCue :: "piece list" where
  "reCue =
     [pOpt (\<lambda>c. c = 91 \<or> c = 40), pOpt (\<lambda>c. c = 9834 \<or> c = 42),
      Piece (\<lambda>c. isUpper c \<or> isLower c \<or> c = 32) 2 (Some 40) Greedy,
      pOpt (\<lambda>c. c = 9834 \<or> c = 42), pOne (\<lambda>c. c = 93 \<or> c = 41)]"

definition reDquote :: "piece list" where
  "reDquote = [pOne (\<lambda>c. c = 8220 \<or> c = 8221)]"

definition reSquote :: "piece list" where
  "reSquote = [pOne (\<lambda>c. c = 8216 \<or> c = 8217)]"

definition reDash :: "piece list" where
  "reDash = [pOne (\<lambda>c. c = 8211 \<or> c = 8212)]"

definition reSpaces :: "piece list" where
  "reSpaces = [pPlus isSpace]"

definition isPunct :: "jchar \<Rightarrow> bool" where
  "isPunct c = (c = 46 \<or> c = 44 \<or> c = 45 \<or> c = 8212 \<or> c = 8211 \<or> c = 33 \<or> c = 63
     \<or> c = 58 \<or> c = 59)"

definition cleanLine :: "jstr \<Rightarrow> jstr" where
  "cleanLine s =
     (let txt = replaceAll reCtrl [32] (replaceAll reBom [] s);
          txt = replaceAll reAss [32] (replaceAll reHtml [32] txt);
          txt = replaceStart reSpeaker [] txt;
          txt = replaceAll reCue [32] txt;
          txt = replaceAll reDash [45] (replaceAll reSquote [39] (replaceAll reDquote [34] txt));
          txt = trim (replaceAll reSpaces [32] txt)
      in if testAnchored [pPlus isPunct] True txt then [] else txt)"

section \<open>srt.ts: parseSrt\<close>

text \<open>A line is skipped by the two blank-skipping loops when it is the empty string or
  trims to it.\<close>

definition blankLine :: "jstr \<Rightarrow> bool" where
  "blankLine l = (l = [] \<or> trim l = [])"

function skipBlank :: "jstr list \<Rightarrow> nat \<Rightarrow> nat" where
  "skipBlank lines i =
     (if i < length lines then
        (if blankLine (lines ! i) then skipBlank lines (i + 1) else i)
      else i)"
  by pat_completeness auto
termination
  by (relation "measure (\<lambda>(lines, i). length lines - i)") auto

declare skipBlank.simps [simp del]

text \<open>The loop that collects the text of a cue: it stops at the first blank line and keeps
  the lines that do not clean to the empty string.\<close>

function collectText :: "jstr list \<Rightarrow> nat \<Rightarrow> jstr list \<Rightarrow> jstr list \<times> nat" where
  "collectText lines i buf =
     (if i < length lines then
        (let lineRaw = lines ! i in
         if lineRaw = [] then (buf, i)
         else if trim lineRaw = [] then (buf, i)
         else (let cleaned = cleanLine lineRaw
               in collectText lines (i + 1) (if cleaned \<noteq> [] then buf @ [cleaned] else buf)))
      else (buf, i))"
  by pat_completeness auto
termination
  by (relation "measure (\<lambda>(lines, i, buf). length lines - i)") auto

declare collectText.simps [simp del]

lemma skipBlank_ge: "i \<le> skipBlank lines i"
proof (induction lines i rule: skipBlank.induct)
  case (1 lines i)
  show ?case
  proof (cases "i < length lines \<and> blankLine (lines ! i)")
    case True
    then have "i + 1 \<le> skipBlank lines (i + 1)" using "1.IH" by simp
    moreover have "skipBlank lines i = skipBlank lines (i + 1)"
      using True by (subst skipBlank.simps) simp
    ultimately show ?thesis by simp
  next
    case False
    then have "skipBlank lines i = i" by (subst skipBlank.simps) auto
    then show ?thesis by simp
  qed
qed

lemma collectText_ge: "i \<le> snd (collectText lines i buf)"
proof (induction lines i buf rule: collectText.induct)
  case (1 lines i buf)
  show ?case
  proof (cases "i < length lines \<and> lines ! i \<noteq> [] \<and> trim (lines ! i) \<noteq> []")
    case True
    let ?b = "if cleanLine (lines ! i) \<noteq> [] then buf @ [cleanLine (lines ! i)] else buf"
    have "collectText lines i buf = collectText lines (i + 1) ?b"
      using True by (subst collectText.simps) (simp add: Let_def)
    moreover have "i + 1 \<le> snd (collectText lines (i + 1) ?b)"
      using True "1.IH" by (simp add: Let_def)
    ultimately show ?thesis by simp
  next
    case False
    then have "collectText lines i buf = (buf, i)"
      by (subst collectText.simps) (auto simp: Let_def)
    then show ?thesis by simp
  qed
qed

text \<open>The time stamps of a trimmed line, if \<open>TS_RE\<close> matches somewhere in it.\<close>

definition tsMatch :: "jstr \<Rightarrow> (real \<times> real) option" where
  "tsMatch tsLine =
     (case searchFirst TS_RE False tsLine of
        None \<Rightarrow> None
      | Some (p, m) \<Rightarrow>
          Some (tsToSec (groupAt tsLine p m 0) (groupAt tsLine p m 2)
                        (groupAt tsLine p m 4) (groupAt tsLine p m 6),
                tsToSec (groupAt tsLine p m 12) (groupAt tsLine p m 14)
                        (groupAt tsLine p m 16) (groupAt tsLine p m 18)))"

text \<open>The main loop of \<open>parseSrt\<close>, with the cursor \<open>i\<close> and the entries pushed so far.
  Every \<open>break\<close> of the source returns the entries.\<close>

function parseLoop :: "jstr list \<Rightarrow> nat \<Rightarrow> SrtEntry list \<Rightarrow> SrtEntry list" where
  "parseLoop lines i entries =
     (if \<not> i < length lines then entries
      else
        (let i1 = skipBlank lines i in
         if i1 \<ge> length lines then entries
         else
           (let maybeIndexRaw = lines ! i1 in
            if maybeIndexRaw = [] then entries
            else
              (let maybeIndex = trim maybeIndexRaw;
                   numeric = testAnchored [pPlus isDigit] True maybeIndex;
                   idx = (if numeric then numOfDigits maybeIndex else length entries + 1);
                   i2 = (if numeric then i1 + 1 else i1)
               in
               if i2 \<ge> length lines then entries
               else
                 (let tsLineRaw = lines ! i2 in
                  if tsLineRaw = [] then entries
                  else
                    (case tsMatch (trim tsLineRaw) of
                       None \<Rightarrow> parseLoop lines (i2 + 1) entries
                     | Some (start, end) \<Rightarrow>
                         (let (buf, i4) = collectText lines (i2 + 1) [];
                              txt = trim (replaceAll reSpaces [32] (joinSp buf));
                              entries' =
                                (if txt \<noteq> [] then
                                   entries @ [\<lparr>e_index = idx, e_start = start, e_end = end, e_text = txt\<rparr>]
                                 else entries)
                          in parseLoop lines (skipBlank lines i4) entries')))))))"
  by pat_completeness auto
termination
proof (relation "measure (\<lambda>(lines, i, entries). length lines - i)", goal_cases)
  case 1
  show ?case by simp
next
  case (2 lines i entries i1 maybeIndexRaw maybeIndex numeric idx i2 tsLineRaw)
  have "i \<le> i1" using 2 skipBlank_ge by simp
  moreover have "i1 \<le> i2" using 2 by simp
  ultimately show ?case using 2 by simp
next
  case (3 lines i entries i1 maybeIndexRaw maybeIndex numeric idx i2 tsLineRaw x2 start end' cr buf i4)
  have a: "i \<le> i1" using 3 skipBlank_ge by simp
  have b: "i1 \<le> i2" using 3 by simp
  have "i2 + 1 \<le> snd (collectText lines (i2 + 1) [])" by (rule collectText_ge)
  then have c: "i2 + 1 \<le> i4" using 3 by (metis snd_conv)
  have d: "i4 \<le> skipBlank lines i4" by (rule skipBlank_ge)
  show ?case using a b c d 3 by simp
qed

declare parseLoop.simps [simp del]

definition parseSrt :: "jstr \<Rightarrow> SrtEntry list" where
  "parseSrt raw =
     (if raw = [] then []
      else sort_key e_start (parseLoop (splitLines (replaceAll [pOne (ch 13)] [] raw)) 0 []))"

section \<open>srt.ts: extractChaptersFromSrt\<close>

record Chapter =
  c_at :: jstr
  c_title :: jstr

text \<open>The option bag: each field may be left out, and so may the bag.\<close>

record Opts =
  o_minGapSec :: "real option"
  o_titleMaxLen :: "int option"
  o_preferSentenceEnds :: "bool option"

definition getMinGapSec :: "Opts option \<Rightarrow> real" where
  "getMinGapSec opts =
     (case opts of None \<Rightarrow> 60 | Some os \<Rightarrow> (case o_minGapSec os of None \<Rightarrow> 60 | Some v \<Rightarrow> v))"

definition getTitleMaxLen :: "Opts option \<Rightarrow> int" where
  "getTitleMaxLen opts =
     (case opts of None \<Rightarrow> 48 | Some os \<Rightarrow> (case o_titleMaxLen os of None \<Rightarrow> 48 | Some v \<Rightarrow> v))"

definition getPreferSentenceEnds :: "Opts option \<Rightarrow> bool" where
  "getPreferSentenceEnds opts =
     (case opts of None \<Rightarrow> True
      | Some os \<Rightarrow> (case o_preferSentenceEnds os of None \<Rightarrow> True | Some v \<Rightarrow> v))"

datatype SrtInput = Raw jstr | Parsed "SrtEntry list"

definition isSentEnd :: "jchar \<Rightarrow> bool" where
  "isSentEnd c = (c = 46 \<or> c = 33 \<or> c = 63)"

text \<open>\<^verbatim>\<open>/^(.+?[\.!\?])\s+/\<close>; the group is the pieces 0 and 1.\<close>

definition reSentence :: "piece list" where
  "reSentence = [Piece isDot 1 None Lazy, pOne isSentEnd, pPlus isSpace]"

text \<open>\<^verbatim>\<open>/\s*[\.\!\?]+$/\<close>, matched up to the end of the string.\<close>

definition reTrail :: "piece list" where
  "reTrail = [pStar isSpace, pPlus isSentEnd]"

text \<open>\<^verbatim>\<open>t.replace(/\b([a-z])/g, (_, c) => c.toUpperCase())\<close>: a lower-case ASCII letter is a
  word character, so a word boundary lies before it exactly when it starts the string or
  the code unit before it is no word character. The flag says whether the code unit before
  is a word character.\<close>

fun capWords :: "bool \<Rightarrow> jstr \<Rightarrow> jstr" where
  "capWords prevWord [] = []"
| "capWords prevWord (c # cs) =
     (if \<not> prevWord \<and> isLower c then c - 32 else c) # capWords (isWord c) cs"

definition pickTitle :: "int \<Rightarrow> bool \<Rightarrow> jstr \<Rightarrow> jstr" where
  "pickTitle titleMaxLen preferSentenceEnds txt =
     (let t = trim txt;
          t = (if preferSentenceEnds then
                 (case matchPieces reSentence False t of
                    Some m \<Rightarrow> take (m ! 0 + m ! 1) t
                  | None \<Rightarrow> t)
               else t);
          t = replaceFirst reTrail True [] t;
          t = (if int (length t) > titleMaxLen then
                 (let cut = sliceTo t (titleMaxLen + 5);
                      lastSep = max (max (lastIndexOf cut [32, 45, 32]) (lastIndexOf cut [32, 8212, 32]))
                                    (max (lastIndexOf cut [44, 32]) (lastIndexOf cut [58, 32]));
                      t = trim (if lastSep > 20 then sliceTo cut lastSep else cut)
                  in if int (length t) > titleMaxLen
                     then trim (sliceTo t (titleMaxLen - 1)) @ [8230]
                     else t)
               else t);
          t = capWords False t
      in if t = [] then js ''Chapter'' else t)"

text \<open>The eligibility test of an entry: \<^verbatim>\<open>/\w/.test(e.text) && e.text.length >= 18\<close>.\<close>

definition contentful :: "SrtEntry \<Rightarrow> bool" where
  "contentful e = (list_ex isWord (e_text e) \<and> length (e_text e) \<ge> 18)"

text \<open>\<open>lastAnchor\<close> starts at minus infinity, which is \<open>None\<close> here: the gap from it is
  plus infinity, at least any number. The gap from an anchor is the rounded difference.\<close>

definition gapOk :: "real \<Rightarrow> real option \<Rightarrow> SrtEntry \<Rightarrow> bool" where
  "gapOk minGap lastAnchor e =
     (case lastAnchor of None \<Rightarrow> True | Some a \<Rightarrow> fround (e_start e - a) \<ge> minGap)"

text \<open>The scan loop over the entries, with the chapters pushed so far and \<open>lastAnchor\<close>.\<close>

fun scanEntries ::
  "real \<Rightarrow> int \<Rightarrow> bool \<Rightarrow> SrtEntry list \<Rightarrow> Chapter list \<Rightarrow> real option \<Rightarrow> Chapter list" where
  "scanEntries minGap maxLen prefer [] chapters lastAnchor = chapters"
| "scanEntries minGap maxLen prefer (e # es) chapters lastAnchor =
     (if \<not> gapOk minGap lastAnchor e \<or> \<not> contentful e
      then scanEntries minGap maxLen prefer es chapters lastAnchor
      else
        (let a = secToHHMM (e_start e);
             title = pickTitle maxLen prefer (e_text e)
         in if \<not> (\<exists>c \<in> set chapters. c_at c = a)
            then scanEntries minGap maxLen prefer es
                   (chapters @ [\<lparr>c_at = a, c_title = title\<rparr>]) (Some (e_start e))
            else scanEntries minGap maxLen prefer es chapters lastAnchor))"

text \<open>The key of the last pass:
  \<^verbatim>\<open>c.title.toLowerCase().replace(/[^a-z0-9]+/g, " ").trim()\<close>. \<open>toLowerCase\<close> follows the
  case tables of Unicode, which are no part of the repository: it is a parameter, and
  \<open>lowerBasicLatin\<close> is what it does on a string of ASCII code units.\<close>

definition normKey :: "(jstr \<Rightarrow> jstr) \<Rightarrow> jstr \<Rightarrow> jstr" where
  "normKey toLowerCase title =
     trim (replaceAll [pPlus (\<lambda>c. \<not> (isLower c \<or> isDigit c))] [32] (toLowerCase title))"

definition lowerBasicLatin :: "jstr \<Rightarrow> jstr" where
  "lowerBasicLatin s = map (\<lambda>c. if isUpper c then c + 32 else c) s"

text \<open>The last loop, with \<open>prev\<close> and the chapters kept so far.\<close>

fun dedupe :: "(jstr \<Rightarrow> jstr) \<Rightarrow> Chapter list \<Rightarrow> jstr \<Rightarrow> Chapter list \<Rightarrow> Chapter list" where
  "dedupe toLowerCase [] prev deduped = deduped"
| "dedupe toLowerCase (c # cs) prev deduped =
     (let k = normKey toLowerCase (c_title c)
      in dedupe toLowerCase cs k (if k \<noteq> [] \<and> k \<noteq> prev then deduped @ [c] else deduped))"

text \<open>The chapters before the last pass: the scan, and the chapter at \<open>"00"\<close> put in front
  when the scan made none.\<close>

definition assemble :: "real \<Rightarrow> int \<Rightarrow> bool \<Rightarrow> SrtEntry list \<Rightarrow> Chapter list" where
  "assemble minGap maxLen prefer entries =
     (let chapters = scanEntries minGap maxLen prefer entries [] None
      in if \<not> (\<exists>c \<in> set chapters. c_at c = js ''00'')
         then
           (let firstText = (case entries of
                               e # _ \<Rightarrow> (if e_text e = [] then js ''Intro'' else e_text e)
                             | [] \<Rightarrow> js ''Intro'')
            in \<lparr>c_at = js ''00'', c_title = pickTitle maxLen prefer firstText\<rparr> # chapters)
         else chapters)"

definition extractChaptersFromSrt ::
  "(jstr \<Rightarrow> jstr) \<Rightarrow> SrtInput \<Rightarrow> Opts option \<Rightarrow> Chapter list" where
  "extractChaptersFromSrt toLowerCase rawOrEntries opts =
     (let minGap = getMinGapSec opts;
          maxLen = getTitleMaxLen opts;
          prefer = getPreferSentenceEnds opts;
          entries = (case rawOrEntries of Raw raw \<Rightarrow> parseSrt raw | Parsed es \<Rightarrow> es)
      in if entries = [] then []
         else dedupe toLowerCase (assemble minGap maxLen prefer entries) [] [])"

section \<open>Definitions for the statements\<close>



text \<open>The hours as \<open>secToHHMM\<close> computes them.\<close>

definition hoursOf :: "real \<Rightarrow> int" where
  "hoursOf sec = \<lfloor>fround (of_int (max 0 \<lfloor>sec\<rfloor>) / 3600)\<rfloor>"

definition mkChapter :: "int \<Rightarrow> bool \<Rightarrow> SrtEntry \<Rightarrow> Chapter" where
  "mkChapter maxLen prefer e =
     \<lparr>c_at = secToHHMM (e_start e), c_title = pickTitle maxLen prefer (e_text e)\<rparr>"

fun scanSources :: "real \<Rightarrow> SrtEntry list \<Rightarrow> SrtEntry list \<Rightarrow> real option \<Rightarrow> SrtEntry list" where
  "scanSources minGap [] sel lastAnchor = sel"
| "scanSources minGap (e # es) sel lastAnchor =
     (if \<not> gapOk minGap lastAnchor e \<or> \<not> contentful e
      then scanSources minGap es sel lastAnchor
      else if \<not> (\<exists>x \<in> set sel. secToHHMM (e_start x) = secToHHMM (e_start e))
           then scanSources minGap es (sel @ [e]) (Some (e_start e))
           else scanSources minGap es sel lastAnchor)"

definition firstTitle :: "int \<Rightarrow> bool \<Rightarrow> SrtEntry list \<Rightarrow> jstr" where
  "firstTitle maxLen prefer entries =
     pickTitle maxLen prefer
       (case entries of e # _ \<Rightarrow> (if e_text e = [] then js ''Intro'' else e_text e)
        | [] \<Rightarrow> js ''Intro'')"

definition assembleSources ::
  "real \<Rightarrow> int \<Rightarrow> bool \<Rightarrow> SrtEntry list \<Rightarrow> (Chapter \<times> SrtEntry option) list" where
  "assembleSources minGap maxLen prefer entries =
     (let sel = scanSources minGap entries [] None;
          tagged = map (\<lambda>e. (mkChapter maxLen prefer e, Some e)) sel
      in if \<not> (\<exists>e \<in> set sel. secToHHMM (e_start e) = js ''00'')
         then (\<lparr>c_at = js ''00'', c_title = firstTitle maxLen prefer entries\<rparr>, None) # tagged
         else tagged)"

text \<open>The pass over the titles as a function of the key before: an element is kept when its
  key is not empty and differs from the key of the element just before it in the list.\<close>

fun keepByPrev :: "('a \<Rightarrow> jstr) \<Rightarrow> jstr \<Rightarrow> 'a list \<Rightarrow> 'a list" where
  "keepByPrev key prev [] = []"
| "keepByPrev key prev (x # xs) =
     (if key x \<noteq> [] \<and> key x \<noteq> prev then [x] else []) @ keepByPrev key (key x) xs"

definition chapterKey :: "(jstr \<Rightarrow> jstr) \<Rightarrow> Chapter \<Rightarrow> jstr" where
  "chapterKey toLowerCase c = normKey toLowerCase (c_title c)"

definition inputEntries :: "SrtInput \<Rightarrow> SrtEntry list" where
  "inputEntries rawOrEntries = (case rawOrEntries of Raw raw \<Rightarrow> parseSrt raw | Parsed es \<Rightarrow> es)"

definition extractWithSources ::
  "(jstr \<Rightarrow> jstr) \<Rightarrow> SrtInput \<Rightarrow> Opts option \<Rightarrow> (Chapter \<times> SrtEntry option) list" where
  "extractWithSources toLowerCase rawOrEntries opts =
     (let entries = inputEntries rawOrEntries
      in if entries = [] then []
         else keepByPrev (\<lambda>x. chapterKey toLowerCase (fst x)) []
                (assembleSources (getMinGapSec opts) (getTitleMaxLen opts)
                   (getPreferSentenceEnds opts) entries))"

definition selOk :: "real \<Rightarrow> SrtEntry set \<Rightarrow> SrtEntry list \<Rightarrow> bool" where
  "selOk g E sel =
     (set sel \<subseteq> E \<and> (\<forall>e \<in> set sel. contentful e)
      \<and> distinct (map (\<lambda>e. secToHHMM (e_start e)) sel)
      \<and> (0 \<le> g \<longrightarrow> sorted_wrt (\<lambda>a b. g \<le> fround (e_start b - e_start a)) sel))"

definition lastOk :: "SrtEntry list \<Rightarrow> real option \<Rightarrow> bool" where
  "lastOk sel lastAnchor = (lastAnchor = (if sel = [] then None else Some (e_start (last sel))))"

definition doc :: jstr where
  "doc = js ''1'' @ [10] @ js ''00:00:01,000 --> 00:00:03,500'' @ [10]
       @ js ''Hello <b>there</b>, friend!'' @ [10] @ [10]
       @ js ''00:00:05,200 --> 00:00:07,000'' @ [10] @ js ''[music] This is a test.''"

definition docLines :: "jstr list" where
  "docLines = [js ''1'', js ''00:00:01,000 --> 00:00:03,500'', js ''Hello <b>there</b>, friend!'', [],
     js ''00:00:05,200 --> 00:00:07,000'', js ''[music] This is a test.'']"

definition ex3 :: "SrtEntry list" where
  "ex3 = [\<lparr>e_index = 1, e_start = 0, e_end = 5, e_text = js ''Hello world and welcome''\<rparr>,
          \<lparr>e_index = 2, e_start = 60, e_end = 65, e_text = js ''__________________''\<rparr>,
          \<lparr>e_index = 3, e_start = 120, e_end = 125, e_text = js ''Hello world and welcome''\<rparr>]"






definition rawU :: jstr where
  "rawU = js ''1'' @ [10] @ js ''00:00:01,000 --> 00:00:02,000'' @ [10] @ js ''_''"

definition rawULines :: "jstr list" where
  "rawULines = [js ''1'', js ''00:00:01,000 --> 00:00:02,000'', js ''_'']"

definition exGap :: "SrtEntry list" where
  "exGap = [\<lparr>e_index = 1, e_start = fround 4.8, e_end = 10, e_text = js ''Hello world and welcome''\<rparr>,
            \<lparr>e_index = 2, e_start = fround 64.8, e_end = 70, e_text = js ''Second part of the talk''\<rparr>]"




text \<open>A string is collapsed when each of its white-space code units is a space followed by
  a code unit that is no white space, or by nothing.\<close>

fun collapsed :: "jstr \<Rightarrow> bool" where
  "collapsed [] = True"
| "collapsed [x] = (isSpace x \<longrightarrow> x = 32)"
| "collapsed (x # y # ys) = ((isSpace x \<longrightarrow> x = 32 \<and> \<not> isSpace y) \<and> collapsed (y # ys))"

text \<open>\<open>cleanLine\<close> before its last test.\<close>

definition cleanCore :: "jstr \<Rightarrow> jstr" where
  "cleanCore s =
     trim (replaceAll reSpaces [32]
       (replaceAll reDash [45] (replaceAll reSquote [39] (replaceAll reDquote [34]
         (replaceAll reCue [32] (replaceStart reSpeaker []
           (replaceAll reAss [32] (replaceAll reHtml [32]
             (replaceAll reCtrl [32] (replaceAll reBom [] s))))))))))"

text \<open>After an opening \<open><\<close> (or \<open>{\\<close>, with \<open>}\<close>) no tag can be read when nothing follows, or
  the closing code unit at once, or no closing code unit at all. A string is stable under a
  pattern when the pattern matches at none of its positions.\<close>

definition blocked :: "jchar \<Rightarrow> jstr \<Rightarrow> bool" where
  "blocked cl s = (s = [] \<or> hd s = cl \<or> cl \<notin> set s)"

definition assBlocked :: "jstr \<Rightarrow> bool" where
  "assBlocked s = (case s of [] \<Rightarrow> True | d # ds \<Rightarrow> d = 92 \<longrightarrow> blocked 125 ds)"

fun stable :: "piece list \<Rightarrow> jstr \<Rightarrow> bool" where
  "stable ps [] = (matchLen ps False [] = None)"
| "stable ps (c # cs) = (matchLen ps False (c # cs) = None \<and> stable ps cs)"

section \<open>Lemmas\<close>

lemma rne_int: "rne (of_int k) = k"
  by (simp add: rne_def)

lemma rne_err: "\<bar>of_int (rne y) - y\<bar> \<le> 1 / 2"
  unfolding rne_def Let_def by (simp; linarith)

lemma rne_mono: "x \<le> y \<Longrightarrow> rne x \<le> rne y"
proof -
  assume xy: "x \<le> y"
  then have f: "\<lfloor>x\<rfloor> \<le> \<lfloor>y\<rfloor>" by (rule floor_mono)
  show ?thesis
  proof (cases "\<lfloor>x\<rfloor> = \<lfloor>y\<rfloor>")
    case True
    then show ?thesis using xy unfolding rne_def Let_def by (simp; linarith)
  next
    case False
    then have "\<lfloor>x\<rfloor> + 1 \<le> \<lfloor>y\<rfloor>" using f by simp
    moreover have "rne x \<le> \<lfloor>x\<rfloor> + 1" unfolding rne_def Let_def by simp
    moreover have "\<lfloor>y\<rfloor> \<le> rne y" unfolding rne_def Let_def by simp
    ultimately show ?thesis by linarith
  qed
qed

lemma binade:
  assumes "x \<noteq> 0"
  shows "2 powr of_int \<lfloor>log 2 \<bar>x\<bar>\<rfloor> \<le> \<bar>x\<bar>" "\<bar>x\<bar> < 2 powr (of_int \<lfloor>log 2 \<bar>x\<bar>\<rfloor> + 1)"
proof -
  have p: "0 < \<bar>x\<bar>" using assms by simp
  have "of_int \<lfloor>log 2 \<bar>x\<bar>\<rfloor> \<le> log 2 \<bar>x\<bar>" by simp
  then show "2 powr of_int \<lfloor>log 2 \<bar>x\<bar>\<rfloor> \<le> \<bar>x\<bar>" using p le_log_iff[of 2 "\<bar>x\<bar>"] by force
  have "log 2 \<bar>x\<bar> < of_int \<lfloor>log 2 \<bar>x\<bar>\<rfloor> + 1" by linarith
  then show "\<bar>x\<bar> < 2 powr (of_int \<lfloor>log 2 \<bar>x\<bar>\<rfloor> + 1)" using p log_less_iff[of 2 "\<bar>x\<bar>"] by force
qed

lemma floor_log2:
  assumes "2 powr of_int k \<le> x" "x < 2 powr (of_int k + 1)"
  shows "\<lfloor>log 2 x\<rfloor> = k"
proof -
  have p: "0 < x" using assms(1) using powr_gt_zero[of 2 "of_int k"] by linarith
  have "of_int k \<le> log 2 x" using assms(1) p by (simp add: le_log_iff)
  moreover have "log 2 x < of_int k + 1" using assms(2) p by (simp add: log_less_iff)
  ultimately show ?thesis by linarith
qed

lemma fround_ulp: "x \<noteq> 0 \<Longrightarrow> fround x = of_int (rne (x / ulp x)) * ulp x"
  by (simp add: fround_def)

lemma ulp_pos: "0 < ulp x"
  by (simp add: ulp_def)

lemma ulp_binade:
  assumes "x \<noteq> 0"
  shows "2 ^ 52 * ulp x \<le> \<bar>x\<bar>" "\<bar>x\<bar> < 2 ^ 53 * ulp x"
proof -
  let ?e = "real_of_int \<lfloor>log 2 \<bar>x\<bar>\<rfloor>"
  have u: "ulp x = 2 powr ?e / 2 ^ 52"
    unfolding ulp_def powr_diff by simp
  have a: "2 powr (?e + 1) = 2 * 2 powr ?e" by (simp add: powr_add)
  show "2 ^ 52 * ulp x \<le> \<bar>x\<bar>" using binade(1)[OF assms] by (simp add: u)
  show "\<bar>x\<bar> < 2 ^ 53 * ulp x" using binade(2)[OF assms] unfolding a by (simp add: u)
qed

lemma ulp_eq:
  assumes "2 ^ 52 * u \<le> \<bar>x\<bar>" "\<bar>x\<bar> < 2 ^ 53 * u" "u = 2 powr of_int k"
  shows "ulp x = u"
proof -
  have "2 ^ 52 = (2::real) powr of_int 52" by (simp add: powr_realpow[symmetric])
  then have a: "2 ^ 52 * u = 2 powr of_int (k + 52)" using assms(3) by (simp add: powr_add)
  have "2 ^ 53 = (2::real) powr of_int 53" by (simp add: powr_realpow[symmetric])
  then have b: "2 ^ 53 * u = 2 powr (of_int (k + 52) + 1)" using assms(3) by (simp add: powr_add)
  have "\<lfloor>log 2 \<bar>x\<bar>\<rfloor> = k + 52"
    using floor_log2[of "k + 52" "\<bar>x\<bar>"] assms(1,2) unfolding a b by simp
  then show ?thesis by (simp add: ulp_def assms(3))
qed

lemma fround_err: "\<bar>fround x - x\<bar> \<le> ulp x / 2"
proof (cases "x = 0")
  case True
  then show ?thesis using ulp_pos[of x] by (simp add: fround_def)
next
  case False
  have "\<bar>of_int (rne (x / ulp x)) - x / ulp x\<bar> * ulp x \<le> 1 / 2 * ulp x"
    using rne_err[of "x / ulp x"] ulp_pos[of x] by (intro mult_right_mono) simp_all
  moreover have "\<bar>of_int (rne (x / ulp x)) - x / ulp x\<bar> * ulp x = \<bar>fround x - x\<bar>"
  proof -
    have "\<bar>of_int (rne (x / ulp x)) - x / ulp x\<bar> * ulp x
        = \<bar>(of_int (rne (x / ulp x)) - x / ulp x) * ulp x\<bar>"
      using ulp_pos[of x] by (simp add: abs_mult)
    also have "(of_int (rne (x / ulp x)) - x / ulp x) * ulp x = fround x - x"
      using ulp_pos[of x] False by (simp add: fround_ulp left_diff_distrib)
    finally show ?thesis .
  qed
  ultimately show ?thesis by simp
qed

lemma rne_range: "of_int a \<le> y \<Longrightarrow> y \<le> of_int b \<Longrightarrow> a \<le> rne y \<and> rne y \<le> b"
  using rne_mono[of "of_int a" y] rne_mono[of y "of_int b"] by (simp add: rne_int)

lemma fround_pos_range:
  assumes "0 < x"
  shows "2 ^ 52 * ulp x \<le> fround x" "fround x \<le> 2 ^ 53 * ulp x"
proof -
  have x0: "x \<noteq> 0" using assms by simp
  have "2 ^ 52 \<le> x / ulp x" "x / ulp x \<le> 2 ^ 53"
    using ulp_binade[OF x0] ulp_pos[of x] assms by (simp_all add: pos_le_divide_eq pos_divide_le_eq)
  then have "of_int (2 ^ 52) \<le> x / ulp x" "x / ulp x \<le> of_int (2 ^ 53)" by simp_all
  from rne_range[OF this] have "2 ^ 52 \<le> rne (x / ulp x)" "rne (x / ulp x) \<le> 2 ^ 53" by simp_all
  then have r: "2 ^ 52 \<le> (of_int (rne (x / ulp x)) :: real)" "(of_int (rne (x / ulp x)) :: real) \<le> 2 ^ 53"
    by (metis of_int_le_iff of_int_numeral of_int_power)+
  show "2 ^ 52 * ulp x \<le> fround x" unfolding fround_ulp[OF x0]
    using r(1) ulp_pos[of x] by (intro mult_right_mono) simp_all
  show "fround x \<le> 2 ^ 53 * ulp x" unfolding fround_ulp[OF x0]
    using r(2) ulp_pos[of x] by (intro mult_right_mono) simp_all
qed

lemma fround_neg: 
  assumes "x < 0" shows "fround x < 0"
proof -
  have x0: "x \<noteq> 0" using assms by simp
  have "x / ulp x \<le> - (2 ^ 52)"
    using ulp_binade(1)[OF x0] ulp_pos[of x] assms by (simp add: pos_divide_le_eq)
  then have "x / ulp x \<le> of_int (- (2 ^ 52))" by simp
  then have "rne (x / ulp x) \<le> - (2 ^ 52)"
    using rne_mono[of "x / ulp x" "of_int (- (2 ^ 52))"] unfolding rne_int by simp
  moreover have "(0::int) < 2 ^ 52" by simp
  ultimately have "rne (x / ulp x) < 0" by linarith
  then have "(of_int (rne (x / ulp x)) :: real) < 0" by simp
  then show ?thesis unfolding fround_ulp[OF x0] using ulp_pos[of x] by (simp add: mult_neg_pos)
qed

lemma ulp_mono: 
  assumes "0 < x" "x \<le> y" shows "ulp x = ulp y \<or> 2 * ulp x \<le> ulp y"
proof -
  have "log 2 x \<le> log 2 y" using assms by simp
  then have le: "\<lfloor>log 2 \<bar>x\<bar>\<rfloor> \<le> \<lfloor>log 2 \<bar>y\<bar>\<rfloor>" using assms by (simp add: floor_mono)
  show ?thesis
  proof (cases "\<lfloor>log 2 \<bar>x\<bar>\<rfloor> = \<lfloor>log 2 \<bar>y\<bar>\<rfloor>")
    case True
    then show ?thesis by (simp add: ulp_def)
  next
    case False
    then have "real_of_int \<lfloor>log 2 \<bar>x\<bar>\<rfloor> + 1 \<le> real_of_int \<lfloor>log 2 \<bar>y\<bar>\<rfloor>" using le by linarith
    then have "2 powr (real_of_int \<lfloor>log 2 \<bar>x\<bar>\<rfloor> - 52 + 1) \<le> 2 powr (real_of_int \<lfloor>log 2 \<bar>y\<bar>\<rfloor> - 52)"
      by (intro powr_mono) simp_all
    moreover have "2 powr (real_of_int \<lfloor>log 2 \<bar>x\<bar>\<rfloor> - 52 + 1)
        = 2 * 2 powr (real_of_int \<lfloor>log 2 \<bar>x\<bar>\<rfloor> - 52)"
      unfolding powr_add by simp
    ultimately have "2 * ulp x \<le> ulp y" unfolding ulp_def by linarith
    then show ?thesis ..
  qed
qed

lemma fround_mono_pos:
  assumes "0 < x" "x \<le> y" shows "fround x \<le> fround y"
proof -
  have y: "0 < y" using assms by simp
  from ulp_mono[OF assms] show ?thesis
  proof
    assume u: "ulp x = ulp y"
    have "x / ulp y \<le> y / ulp y" using assms(2) ulp_pos[of y] by (simp add: divide_right_mono)
    then have "rne (x / ulp y) \<le> rne (y / ulp y)" by (rule rne_mono)
    then have "(of_int (rne (x / ulp y)) :: real) \<le> of_int (rne (y / ulp y))" by simp
    then have "of_int (rne (x / ulp y)) * ulp y \<le> of_int (rne (y / ulp y)) * ulp y"
      using ulp_pos[of y] by (intro mult_right_mono) simp_all
    then show ?thesis using assms y by (simp add: fround_ulp u)
  next
    assume u: "2 * ulp x \<le> ulp y"
    have "fround x \<le> 2 ^ 53 * ulp x" using fround_pos_range(2)[OF assms(1)] .
    also have "\<dots> = 2 ^ 52 * (2 * ulp x)" by simp
    also have "\<dots> \<le> 2 ^ 52 * ulp y" using u by (intro mult_left_mono) simp_all
    also have "\<dots> \<le> fround y" using fround_pos_range(1)[OF y] .
    finally show ?thesis .
  qed
qed

lemma fround_mono_nonneg: "0 \<le> x \<Longrightarrow> x \<le> y \<Longrightarrow> fround x \<le> fround y"
proof -
  assume a: "0 \<le> x" "x \<le> y"
  show ?thesis
  proof (cases "x = 0")
    case True
    show ?thesis
    proof (cases "y = 0")
      case True
      then show ?thesis using \<open>x = 0\<close> by simp
    next
      case False
      then have "0 < y" using a True by simp
      have "0 \<le> 2 ^ 52 * ulp y" using ulp_pos[of y] by simp
      then have "0 \<le> fround y" using fround_pos_range(1)[OF \<open>0 < y\<close>] by linarith
      then show ?thesis using True by (simp add: fround_def)
    qed
  next
    case False
    then show ?thesis using a fround_mono_pos[of x y] by simp
  qed
qed

lemma fround_nonneg_D: "0 \<le> fround x \<Longrightarrow> 0 \<le> x"
  using fround_neg[of x] by linarith

lemma ulp_inv:
  assumes "u = 1 / 2 ^ m" "2 ^ 52 * u \<le> \<bar>x\<bar>" "\<bar>x\<bar> < 2 ^ 53 * u"
  shows "ulp x = u"
proof -
  have "u = 2 powr of_int (- int m)"
    unfolding assms(1) by (simp add: powr_minus powr_realpow inverse_eq_divide)
  from ulp_eq[OF assms(2,3) this] show ?thesis .
qed


lemma fround_lo:
  assumes "2 ^ 52 \<le> \<bar>x\<bar> * 2 ^ m" "\<bar>x\<bar> * 2 ^ m < 2 ^ 53"
  shows "fround x = of_int (rne (x * 2 ^ m)) / 2 ^ m"
proof -
  have x0: "x \<noteq> 0"
  proof
    assume "x = 0"
    then show False using assms(1) by simp
  qed
  have "ulp x = 1 / 2 ^ m"
    using assms by (intro ulp_inv[of _ m]) (simp_all add: field_simps)
  then show ?thesis by (simp add: fround_ulp[OF x0])
qed


lemma ulp_small:
  assumes "x \<noteq> 0" "\<bar>x\<bar> < 2 ^ 42"
  shows "ulp x \<le> 1 / 2 ^ 11"
proof -
  have "(2::real) ^ 42 = 2 powr 42" by (simp add: powr_realpow[symmetric])
  then have "log 2 \<bar>x\<bar> < 42" using assms log_less_iff[of 2 "\<bar>x\<bar>" 42] by simp
  then have "\<lfloor>log 2 \<bar>x\<bar>\<rfloor> \<le> 41" by linarith
  then have "real_of_int \<lfloor>log 2 \<bar>x\<bar>\<rfloor> - 52 \<le> - 11" by linarith
  then have "ulp x \<le> 2 powr (- 11)" unfolding ulp_def by (intro powr_mono) simp_all
  also have "(2::real) powr (- 11) = 1 / 2 ^ 11"
    by (simp add: powr_minus powr_realpow[symmetric] inverse_eq_divide)
  finally show ?thesis .
qed

lemma fround_int:
  assumes "\<bar>n\<bar> < 2 ^ 53"
  shows "fround (of_int n) = of_int n"
proof (cases "n = 0")
  case True
  then show ?thesis by (simp add: fround_def)
next
  case False
  let ?x = "real_of_int n"
  have x0: "?x \<noteq> 0" using False by simp
  have "real_of_int \<bar>n\<bar> < real_of_int (2 ^ 53)" using assms by (simp only: of_int_less_iff)
  then have "\<bar>?x\<bar> < 2 ^ 53" by simp
  moreover have "(2::real) ^ 53 = 2 powr 53" by (simp add: powr_realpow[symmetric])
  ultimately have "log 2 \<bar>?x\<bar> < 53" using x0 log_less_iff[of 2 "\<bar>?x\<bar>" 53] by simp
  then have e: "\<lfloor>log 2 \<bar>?x\<bar>\<rfloor> \<le> 52" by linarith
  define m where "m = nat (52 - \<lfloor>log 2 \<bar>?x\<bar>\<rfloor>)"
  have "real_of_int \<lfloor>log 2 \<bar>?x\<bar>\<rfloor> - 52 = - real m" using e by (simp add: m_def)
  then have u: "ulp ?x = 1 / 2 ^ m"
    unfolding ulp_def by (simp add: powr_minus powr_realpow inverse_eq_divide)
  have "?x / ulp ?x = of_int (n * 2 ^ m)" by (simp add: u)
  then have "rne (?x / ulp ?x) = n * 2 ^ m" by (simp only: rne_int)
  then show ?thesis by (simp add: fround_ulp[OF x0] u)
qed

lemma fdiv_floor:
  assumes "0 \<le> t" "0 < d" "d < 4096" "t < d * 2 ^ 42"
  shows "\<lfloor>fround (of_int t / of_int d)\<rfloor> = t div d"
proof -
  define q where "q = t div d"
  define r where "r = t mod d"
  have t: "t = q * d + r" by (simp add: q_def r_def)
  have r: "0 \<le> r" "r < d" using assms(2) by (simp_all add: r_def)
  have q0: "0 \<le> q" using assms by (simp add: q_def pos_imp_zdiv_nonneg_iff)
  have "q * d \<le> t" using r(1) t by linarith
  then have "q * d < 2 ^ 42 * d" using assms(4) by (simp add: mult.commute)
  then have q1: "q < 2 ^ 42" using assms(2) by (simp add: mult_less_cancel_right)
  note q = q0 q1
  have dr: "(0::real) < of_int d" using assms(2) by simp
  let ?x = "real_of_int t / real_of_int d"
  have x: "?x = of_int q + of_int r / of_int d" using dr by (simp add: t field_simps)
  show ?thesis
  proof (cases "r = 0")
    case True
    then have "?x = of_int q" using x by simp
    moreover have "\<bar>q\<bar> < 2 ^ 53" using q by simp
    ultimately have "fround ?x = of_int q" using fround_int[of q] by simp
    then show ?thesis by (simp add: q_def)
  next
    case False
    then have r1: "1 \<le> r" "r \<le> d - 1" using r by simp_all
    have d1: "1 / of_int d \<le> of_int r / real_of_int d"
      using r1(1) dr by (simp add: divide_right_mono)
    have "real_of_int r \<le> real_of_int (d - 1)" using r1(2) by (simp only: of_int_le_iff)
    then have "real_of_int r \<le> of_int d - 1" by simp
    then have "of_int r / real_of_int d \<le> (of_int d - 1) / of_int d"
      using dr by (simp add: divide_right_mono)
    also have "\<dots> = 1 - 1 / of_int d" using dr by (simp add: field_simps)
    finally have d2: "of_int r / real_of_int d \<le> 1 - 1 / of_int d" .
    have "real_of_int d < real_of_int 4096" using assms(3) by (simp only: of_int_less_iff)
    then have "real_of_int d < 4096" by simp
    then have d3: "1 / 4096 < 1 / real_of_int d" using dr by (simp add: field_simps)
    have qr: "0 \<le> real_of_int q" using q(1) by simp
    have x0: "?x \<noteq> 0" using x d1 d3 qr by linarith
    have "q + 1 \<le> 2 ^ 42" using q(2) by simp
    then have "real_of_int (q + 1) \<le> real_of_int (2 ^ 42)" by (simp only: of_int_le_iff)
    then have "real_of_int q + 1 \<le> 2 ^ 42" by simp
    then have "\<bar>?x\<bar> < 2 ^ 42" using x d2 d1 d3 qr by linarith
    from ulp_small[OF x0 this] have "ulp ?x / 2 \<le> 1 / 4096" by simp
    then have e: "\<bar>fround ?x - ?x\<bar> \<le> 1 / 4096" using fround_err[of ?x] by linarith
    have "of_int q \<le> fround ?x" "fround ?x < of_int q + 1"
      using e x d1 d2 d3 by linarith+
    then have "\<lfloor>fround ?x\<rfloor> = q" by linarith
    then show ?thesis by (simp add: q_def)
  qed
qed

lemma fround_upper:
  assumes "0 \<le> x"
  shows "fround x \<le> x * (1 + 1 / 2 ^ 53)"
proof (cases "x = 0")
  case True
  then show ?thesis by (simp add: fround_def)
next
  case False
  have "2 ^ 52 * ulp x \<le> x" using ulp_binade(1)[OF False] assms by simp
  then have "ulp x / 2 \<le> x / 2 ^ 53" by simp
  moreover have "fround x \<le> x + ulp x / 2" using fround_err[of x] by linarith
  ultimately have "fround x \<le> x + x / 2 ^ 53" by linarith
  then show ?thesis by (simp add: distrib_left)
qed

lemma fround_0: "fround 0 = 0"
  by (simp add: fround_def)

lemma fround_1: "fround 1 = 1"
  using fround_int[of 1] by simp

lemma fround_numeral: "(numeral k :: int) < 2 ^ 53 \<Longrightarrow> fround (numeral k) = numeral k"
  using fround_int[of "numeral k"] by simp

lemma fround_half: "fround (1 / 2) = 1 / 2" "fround (7 / 2) = 7 / 2"
proof -
  show "fround (1 / 2) = 1 / 2" by (subst fround_lo[where m = 53]) (simp_all add: rne_def)
  show "fround (7 / 2) = 7 / 2" by (subst fround_lo[where m = 51]) (simp_all add: rne_def)
qed

lemma fround_5_2: "fround (26 / 5) = 5854679515581645 / 1125899906842624"
  "fround (5 + fround (1 / 5)) = fround (26 / 5)"
proof -
  show a: "fround (26 / 5) = 5854679515581645 / 1125899906842624"
    by (subst fround_lo[where m = 50]) (simp_all add: rne_def)
  have b: "fround (1 / 5) = 3602879701896397 / 18014398509481984"
    by (subst fround_lo[where m = 55]) (simp_all add: rne_def)
  show "fround (5 + fround (1 / 5)) = fround (26 / 5)"
    unfolding a b by (subst fround_lo[where m = 50]) (simp_all add: rne_def)
qed


lemma digitsOf_small: "n < 10 \<Longrightarrow> digitsOf n = [48 + n]"
  by (subst digitsOf.simps) simp

lemma digitsOf_big: "\<not> n < 10 \<Longrightarrow> digitsOf n = digitsOf (n div 10) @ [48 + n mod 10]"
  by (subst digitsOf.simps) simp











lemma pad2_two: "n < 100 \<Longrightarrow> padStart2 (digitsOf n) = [48 + n div 10, 48 + n mod 10]"
proof (cases "n < 10")
  case True
  then show ?thesis by (simp add: digitsOf_small padStart2_def)
next
  case False
  assume "n < 100"
  then have "n div 10 < 10" by simp
  then show ?thesis using False by (simp add: digitsOf_big digitsOf_small padStart2_def)
qed


lemma mm_exact:
  assumes "0 \<le> t"
  shows "\<lfloor>fround (of_int (t mod 3600) / 60)\<rfloor> = (t mod 3600) div 60"
proof -
  have "t mod 3600 < 3600" by simp
  then have "t mod 3600 < 60 * 2 ^ 42" by simp
  moreover have "0 \<le> t mod 3600" by simp
  ultimately show ?thesis using fdiv_floor[of "t mod 3600" 60] by simp
qed

lemma hh_exact:
  assumes "0 \<le> t" "t < 3600 * 2 ^ 42"
  shows "\<lfloor>fround (of_int t / 3600)\<rfloor> = t div 3600"
  using fdiv_floor[of t 3600] assms by simp

lemma hoursOf_exact: "max 0 \<lfloor>sec\<rfloor> < 3600 * 2 ^ 42 \<Longrightarrow> hoursOf sec = max 0 \<lfloor>sec\<rfloor> div 3600"
  unfolding hoursOf_def by (rule hh_exact) simp_all

lemma hoursOf_nonneg: "0 \<le> hoursOf sec"
proof -
  have "0 \<le> real_of_int (max 0 \<lfloor>sec\<rfloor>) / 3600" by simp
  then have "fround 0 \<le> fround (real_of_int (max 0 \<lfloor>sec\<rfloor>) / 3600)"
    by (rule fround_mono_nonneg[OF order_refl])
  then have "0 \<le> fround (real_of_int (max 0 \<lfloor>sec\<rfloor>) / 3600)" by (simp add: fround_def)
  then show ?thesis unfolding hoursOf_def by simp
qed

text \<open>The minutes are exact whatever the seconds.\<close>

lemma secToHHMM_parts:
  "secToHHMM sec =
     (if hoursOf sec > 0 then padStart2 (numToString (hoursOf sec)) @ [58] else [])
     @ [48 + nat (max 0 \<lfloor>sec\<rfloor> mod 3600 div 60) div 10,
        48 + nat (max 0 \<lfloor>sec\<rfloor> mod 3600 div 60) mod 10]"
proof -
  define t where "t = max 0 \<lfloor>sec\<rfloor>"
  define mm where "mm = (t mod 3600) div 60"
  have t0: "0 \<le> t" by (simp add: t_def)
  have mm: "0 \<le> mm" "mm < 60" by (simp_all add: mm_def)
  then have n: "nat mm < 100" by simp
  have "numToString mm = digitsOf (nat mm)" using mm by (simp add: numToString_def)
  then have "padStart2 (numToString mm) = [48 + nat mm div 10, 48 + nat mm mod 10]"
    using pad2_two[OF n] by simp
  then show ?thesis
    unfolding secToHHMM_def Let_def hoursOf_def t_def[symmetric] mm_exact[OF t0] mm_def[symmetric]
    by simp
qed


lemma secToHHMM_lt_hour:
  assumes "max 0 \<lfloor>sec\<rfloor> < 3600"
  shows "secToHHMM sec = [48 + nat (max 0 \<lfloor>sec\<rfloor> div 60) div 10, 48 + nat (max 0 \<lfloor>sec\<rfloor> div 60) mod 10]"
proof -
  have "max 0 \<lfloor>sec\<rfloor> < 3600 * 2 ^ 42" using assms by simp
  then have "hoursOf sec = max 0 \<lfloor>sec\<rfloor> div 3600" by (rule hoursOf_exact)
  then have h: "hoursOf sec = 0" using assms by simp
  have "max 0 \<lfloor>sec\<rfloor> mod 3600 = max 0 \<lfloor>sec\<rfloor>" using assms by simp
  then show ?thesis unfolding secToHHMM_parts[of sec] h by simp
qed





lemma scan_sources:
  "scanEntries g m p es (map (mkChapter m p) sel) la
     = map (mkChapter m p) (scanSources g es sel la)"
proof (induction es arbitrary: sel la)
  case Nil
  show ?case by simp
next
  case (Cons e es)
  have ex: "(\<exists>c \<in> set (map (mkChapter m p) sel). c_at c = secToHHMM (e_start e))
      = (\<exists>x \<in> set sel. secToHHMM (e_start x) = secToHHMM (e_start e))"
    by (auto simp: mkChapter_def)
  have mk1: "\<lparr>c_at = secToHHMM (e_start e), c_title = pickTitle m p (e_text e)\<rparr> = mkChapter m p e"
    by (simp add: mkChapter_def)
  have ih1: "scanEntries g m p es (map (mkChapter m p) sel @ [mkChapter m p e]) (Some (e_start e))
      = map (mkChapter m p) (scanSources g es (sel @ [e]) (Some (e_start e)))"
    using Cons.IH[of "sel @ [e]" "Some (e_start e)"] by simp
  show ?case
  proof (cases "\<not> gapOk g la e \<or> \<not> contentful e")
    case True
    then show ?thesis using Cons.IH[of sel la] by auto
  next
    case False
    show ?thesis
    proof (cases "\<exists>x \<in> set sel. secToHHMM (e_start x) = secToHHMM (e_start e)")
      case True
      have "scanEntries g m p (e # es) (map (mkChapter m p) sel) la
          = scanEntries g m p es (map (mkChapter m p) sel) la"
        unfolding scanEntries.simps Let_def ex using True False by auto
      then show ?thesis using True False Cons.IH[of sel la] by auto
    next
      case fresh: False
      have "scanEntries g m p (e # es) (map (mkChapter m p) sel) la
          = scanEntries g m p es (map (mkChapter m p) sel @ [mkChapter m p e]) (Some (e_start e))"
        unfolding scanEntries.simps Let_def ex mk1 using fresh False by auto
      then show ?thesis using fresh False ih1 by auto
    qed
  qed
qed

lemma assemble_sources: "map fst (assembleSources g m p es) = assemble g m p es"
proof -
  have s: "scanEntries g m p es [] None = map (mkChapter m p) (scanSources g es [] None)"
    using scan_sources[of g m p es "[]" None] by simp
  have ex: "(\<exists>c \<in> set (map (mkChapter m p) (scanSources g es [] None)). c_at c = js ''00'')
      = (\<exists>e \<in> set (scanSources g es [] None). secToHHMM (e_start e) = js ''00'')"
    by (auto simp: mkChapter_def)
  show ?thesis
    unfolding assemble_def assembleSources_def Let_def s ex firstTitle_def
    by (simp add: comp_def)
qed

lemma dedupe_keep: "dedupe lower cs prev acc = acc @ keepByPrev (chapterKey lower) prev cs"
  by (induction cs arbitrary: prev acc) (simp_all add: Let_def chapterKey_def)

lemma keepByPrev_map: "map f (keepByPrev (\<lambda>x. key (f x)) prev xs) = keepByPrev key prev (map f xs)"
  by (induction xs arbitrary: prev) simp_all

lemma extract_keep:
  "extractChaptersFromSrt lower inp opts =
     (if inputEntries inp = [] then []
      else keepByPrev (chapterKey lower) []
             (assemble (getMinGapSec opts) (getTitleMaxLen opts) (getPreferSentenceEnds opts)
                (inputEntries inp)))"
  unfolding extractChaptersFromSrt_def Let_def inputEntries_def
  by (simp add: dedupe_keep)

lemma extract_sources:
  "map fst (extractWithSources lower inp opts) = extractChaptersFromSrt lower inp opts"
  unfolding extractWithSources_def Let_def extract_keep
  by (simp add: keepByPrev_map assemble_sources)

lemma keepByPrev_subset: "set (keepByPrev key prev xs) \<subseteq> set xs"
  by (induction xs arbitrary: prev) auto

lemma keepByPrev_sorted_wrt:
  "sorted_wrt R xs \<Longrightarrow> sorted_wrt R (keepByPrev key prev xs)"
proof (induction xs arbitrary: prev)
  case Nil
  show ?case by simp
next
  case (Cons x xs)
  have "\<forall>y \<in> set (keepByPrev key (key x) xs). R x y"
    using Cons.prems keepByPrev_subset by fastforce
  then show ?case using Cons by simp
qed

lemma keepByPrev_distinct:
  "distinct (map f xs) \<Longrightarrow> distinct (map f (keepByPrev key prev xs))"
proof (induction xs arbitrary: prev)
  case Nil
  show ?case by simp
next
  case (Cons x xs)
  have "f x \<notin> f ` set (keepByPrev key (key x) xs)"
    using Cons.prems keepByPrev_subset by fastforce
  then show ?case using Cons by simp
qed

lemma keepByPrev_filter:
  "keepByPrev key prev xs
     = map snd (filter (\<lambda>(p, x). key x \<noteq> [] \<and> key x \<noteq> p) (zip (prev # map key xs) xs))"
  by (induction xs arbitrary: prev) simp_all

lemma keepByPrev_nth:
  "x \<in> set (keepByPrev key prev xs) \<longleftrightarrow>
     (\<exists>i < length xs. xs ! i = x \<and> key x \<noteq> []
        \<and> key x \<noteq> (if i = 0 then prev else key (xs ! (i - 1))))"
proof (induction xs arbitrary: prev)
  case Nil
  show ?case by simp
next
  case (Cons y ys)
  have tl: "(\<exists>i < length ys. ys ! i = x \<and> key x \<noteq> [] \<and> key x \<noteq> (if i = 0 then key y else key (ys ! (i - 1))))
      \<longleftrightarrow> (\<exists>i < length (y # ys). 0 < i \<and> (y # ys) ! i = x \<and> key x \<noteq> []
             \<and> key x \<noteq> key ((y # ys) ! (i - 1)))" (is "?L \<longleftrightarrow> ?R")
  proof
    assume ?L
    then obtain i where i: "i < length ys" "ys ! i = x" "key x \<noteq> []"
      "key x \<noteq> (if i = 0 then key y else key (ys ! (i - 1)))" by blast
    have "key x \<noteq> key ((y # ys) ! i)" using i(4) by (cases i) simp_all
    then show ?R using i by (intro exI[of _ "Suc i"]) simp
  next
    assume ?R
    then obtain i where i: "i < length (y # ys)" "0 < i" "(y # ys) ! i = x" "key x \<noteq> []"
      "key x \<noteq> key ((y # ys) ! (i - 1))" by blast
    then obtain j where j: "i = Suc j" by (cases i) simp_all
    have "key x \<noteq> (if j = 0 then key y else key (ys ! (j - 1)))"
      using i(5) j by (cases j) simp_all
    then show ?L using i j by (intro exI[of _ j]) simp
  qed
  have hd: "(x = y \<and> key y \<noteq> [] \<and> key y \<noteq> prev)
      \<longleftrightarrow> ((y # ys) ! 0 = x \<and> key x \<noteq> [] \<and> key x \<noteq> prev)" by auto
  have split: "(\<exists>i < length (y # ys). (y # ys) ! i = x \<and> key x \<noteq> []
        \<and> key x \<noteq> (if i = 0 then prev else key ((y # ys) ! (i - 1))))
    \<longleftrightarrow> ((y # ys) ! 0 = x \<and> key x \<noteq> [] \<and> key x \<noteq> prev)
       \<or> (\<exists>i < length (y # ys). 0 < i \<and> (y # ys) ! i = x \<and> key x \<noteq> []
             \<and> key x \<noteq> key ((y # ys) ! (i - 1)))" (is "?A \<longleftrightarrow> ?B \<or> ?C")
  proof
    assume ?A
    then obtain i where i: "i < length (y # ys)" "(y # ys) ! i = x" "key x \<noteq> []"
      "key x \<noteq> (if i = 0 then prev else key ((y # ys) ! (i - 1)))" by blast
    show "?B \<or> ?C"
    proof (cases "i = 0")
      case True
      then show ?thesis using i by simp
    next
      case False
      then have ?C using i by (intro exI[of _ i]) simp
      then show ?thesis ..
    qed
  next
    assume "?B \<or> ?C"
    then show ?A
    proof
      assume ?B
      then show ?A by (intro exI[of _ 0]) simp
    next
      assume ?C
      then obtain i where i: "i < length (y # ys)" "0 < i" "(y # ys) ! i = x" "key x \<noteq> []"
        "key x \<noteq> key ((y # ys) ! (i - 1))" by blast
      then show ?A by (intro exI[of _ i]) simp
    qed
  qed
  have "x \<in> set (keepByPrev key prev (y # ys))
      \<longleftrightarrow> (x = y \<and> key y \<noteq> [] \<and> key y \<noteq> prev) \<or> x \<in> set (keepByPrev key (key y) ys)"
    by auto
  also have "\<dots> \<longleftrightarrow> ((y # ys) ! 0 = x \<and> key x \<noteq> [] \<and> key x \<noteq> prev)
       \<or> (\<exists>i < length (y # ys). 0 < i \<and> (y # ys) ! i = x \<and> key x \<noteq> []
             \<and> key x \<noteq> key ((y # ys) ! (i - 1)))"
    unfolding Cons.IH[of "key y"] tl hd ..
  finally show ?case unfolding split .
qed

lemma selOk_snoc:
  assumes ok: "selOk g E sel" and lo: "lastOk sel la" and gap: "gapOk g la e"
    and c: "contentful e" and inE: "e \<in> E"
    and fresh: "\<not> (\<exists>x \<in> set sel. secToHHMM (e_start x) = secToHHMM (e_start e))"
  shows "selOk g E (sel @ [e])"
proof -
  have srt: "sorted_wrt (\<lambda>a b. g \<le> fround (e_start b - e_start a)) (sel @ [e])" if g0: "0 \<le> g"
  proof (cases "sel = []")
    case True
    then show ?thesis by simp
  next
    case False
    have s: "sorted_wrt (\<lambda>a b. g \<le> fround (e_start b - e_start a)) sel" using ok g0 by (simp add: selOk_def)
    have la: "la = Some (e_start (last sel))" using lo False by (simp add: lastOk_def)
    then have gl: "g \<le> fround (e_start e - e_start (last sel))" using gap by (simp add: gapOk_def)
    then have "0 \<le> fround (e_start e - e_start (last sel))" using g0 by linarith
    then have el: "0 \<le> e_start e - e_start (last sel)" by (rule fround_nonneg_D)
    have "g \<le> fround (e_start e - e_start x)" if x: "x \<in> set sel" for x
    proof (cases "x = last sel")
      case True
      then show ?thesis using gl by simp
    next
      case False
      obtain ys where ys: "sel = ys @ [last sel]" using \<open>sel \<noteq> []\<close> by (metis append_butlast_last_id)
      then have "x \<in> set ys" using x False by (metis Un_iff empty_iff empty_set set_ConsD set_append)
      moreover have "sorted_wrt (\<lambda>a b. g \<le> fround (e_start b - e_start a)) (ys @ [last sel])" using s ys by simp
      ultimately have "g \<le> fround (e_start (last sel) - e_start x)" by (simp add: sorted_wrt_append)
      then have "0 \<le> fround (e_start (last sel) - e_start x)" using g0 by linarith
      then have "0 \<le> e_start (last sel) - e_start x" by (rule fround_nonneg_D)
      then have "e_start e - e_start (last sel) \<le> e_start e - e_start x" by linarith
      from fround_mono_nonneg[OF el this] show ?thesis using gl by linarith
    qed
    then show ?thesis using s by (simp add: sorted_wrt_append)
  qed
  show ?thesis using ok c inE fresh srt by (auto simp: selOk_def)
qed

lemma scanSources_ok:
  "selOk g E sel \<Longrightarrow> lastOk sel la \<Longrightarrow> set es \<subseteq> E \<Longrightarrow> selOk g E (scanSources g es sel la)"
proof (induction es arbitrary: sel la)
  case Nil
  then show ?case by simp
next
  case (Cons e es)
  show ?case
  proof (cases "\<not> gapOk g la e \<or> \<not> contentful e")
    case True
    then show ?thesis using Cons by simp
  next
    case False
    note ok = False
    show ?thesis
    proof (cases "\<exists>x \<in> set sel. secToHHMM (e_start x) = secToHHMM (e_start e)")
      case True
      then show ?thesis using ok Cons by simp
    next
      case False
      have "selOk g E (sel @ [e])"
        using selOk_snoc[OF Cons.prems(1) Cons.prems(2)] ok False Cons.prems(3) by simp
      moreover have "lastOk (sel @ [e]) (Some (e_start e))" by (simp add: lastOk_def)
      ultimately have "selOk g E (scanSources g es (sel @ [e]) (Some (e_start e)))"
        using Cons.IH Cons.prems(3) by simp
      then show ?thesis using ok False by simp
    qed
  qed
qed

lemma scanSources_ok0: "selOk g (set es) (scanSources g es [] None)"
  by (rule scanSources_ok) (simp_all add: selOk_def lastOk_def)

lemma assembleSources_elems:
  assumes "x \<in> set (assembleSources g m p es)"
  shows "(snd x = None \<and> fst x = \<lparr>c_at = js ''00'', c_title = firstTitle m p es\<rparr>)
       \<or> (\<exists>e \<in> set es. snd x = Some e \<and> contentful e \<and> fst x = mkChapter m p e)"
proof -
  have ok: "selOk g (set es) (scanSources g es [] None)" by (rule scanSources_ok0)
  have "x = (\<lparr>c_at = js ''00'', c_title = firstTitle m p es\<rparr>, None)
      \<or> x \<in> set (map (\<lambda>e. (mkChapter m p e, Some e)) (scanSources g es [] None))"
    using assms unfolding assembleSources_def Let_def by (auto split: if_splits)
  then show ?thesis
  proof
    assume "x = (\<lparr>c_at = js ''00'', c_title = firstTitle m p es\<rparr>, None)"
    then show ?thesis by simp
  next
    assume "x \<in> set (map (\<lambda>e. (mkChapter m p e, Some e)) (scanSources g es [] None))"
    then obtain e where e: "e \<in> set (scanSources g es [] None)" "x = (mkChapter m p e, Some e)"
      by auto
    then have "e \<in> set es" "contentful e" using ok by (auto simp: selOk_def)
    then show ?thesis using e by auto
  qed
qed

lemma assembleSources_sorted:
  assumes "0 \<le> g"
  shows "sorted_wrt (\<lambda>x y. \<forall>e1 e2. snd x = Some e1 \<and> snd y = Some e2 \<longrightarrow> g \<le> fround (e_start e2 - e_start e1))
           (assembleSources g m p es)"
proof -
  have ok: "selOk g (set es) (scanSources g es [] None)" by (rule scanSources_ok0)
  then have s: "sorted_wrt (\<lambda>a b. g \<le> fround (e_start b - e_start a)) (scanSources g es [] None)"
    using assms by (simp add: selOk_def)
  have "sorted_wrt (\<lambda>x y. \<forall>e1 e2. snd x = Some e1 \<and> snd y = Some e2 \<longrightarrow> g \<le> fround (e_start e2 - e_start e1))
          (map (\<lambda>e. (mkChapter m p e, Some e)) (scanSources g es [] None))"
    using s by (simp add: sorted_wrt_map)
  then show ?thesis unfolding assembleSources_def Let_def by simp
qed

lemma assemble_distinct: "distinct (map c_at (assemble g m p es))"
proof -
  have ok: "selOk g (set es) (scanSources g es [] None)" by (rule scanSources_ok0)
  have m: "map c_at (map (mkChapter m p) (scanSources g es [] None))
      = map (\<lambda>e. secToHHMM (e_start e)) (scanSources g es [] None)"
    by (simp add: mkChapter_def comp_def)
  have d: "distinct (map c_at (map (mkChapter m p) (scanSources g es [] None)))"
    unfolding m using ok by (simp add: selOk_def)
  have s: "scanEntries g m p es [] None = map (mkChapter m p) (scanSources g es [] None)"
    using scan_sources[of g m p es "[]" None] by simp
  show ?thesis
    unfolding assemble_def Let_def s using d by auto
qed

lemma assemble_has00: "\<exists>c \<in> set (assemble g m p es). c_at c = js ''00''"
  unfolding assemble_def Let_def by auto

lemma distinct_count1:
  "distinct (map f xs) \<Longrightarrow> length (filter (\<lambda>c. f c = a) xs) = (if a \<in> f ` set xs then 1 else 0)"
  by (induction xs) (auto simp: image_iff)



lemmas cls = isSpace_def isDigit_def isUpper_def isLower_def isWord_def isDot_def isLabelChar_def isPunct_def ch_def isSentEnd_def
lemmas pcs = pOne_def pOpt_def pPlus_def pStar_def
lemmas res = reBom_def reCtrl_def reHtml_def reAss_def reSpeaker_def reCue_def reDquote_def reSquote_def reDash_def reSpaces_def reSentence_def reTrail_def TS_RE_def
lemmas evs = js_def res pcs cls upt_rec Let_def replaceStart_def replaceFirst_def matchLen_def testAnchored_def testRe_def searchFirst_def trim_def

lemma l0: "splitLines (replaceAll [pOne (ch 13)] [] doc) = docLines"
  unfolding doc_def docLines_def by (simp add: evs)

lemma c1: "cleanLine (js ''Hello <b>there</b>, friend!'') = js ''Hello there , friend!''"
  unfolding cleanLine_def Let_def by (simp add: evs)

lemma c2: "cleanLine (js ''[music] This is a test.'') = js ''This is a test.''"
  unfolding cleanLine_def Let_def by (simp add: evs)

lemma t1: "tsMatch (trim (js ''00:00:01,000 --> 00:00:03,500'')) = Some (1, 3.5)"
  unfolding tsMatch_def
  by (simp add: evs groupAt_def tsToSec_def numOfDigits_def fround_0 fround_1 fround_numeral fround_half)

lemma t2: "tsMatch (trim (js ''00:00:05,200 --> 00:00:07,000'')) = Some (fround 5.2, 7)"
  unfolding tsMatch_def
  by (simp add: evs groupAt_def tsToSec_def numOfDigits_def fround_0 fround_1 fround_numeral fround_5_2(2))

lemma nthL: "docLines ! 0 = js ''1''" "docLines ! 1 = js ''00:00:01,000 --> 00:00:03,500''"
  "docLines ! 2 = js ''Hello <b>there</b>, friend!''" "docLines ! 3 = []"
  "docLines ! 4 = js ''00:00:05,200 --> 00:00:07,000''" "docLines ! 5 = js ''[music] This is a test.''"
  "length docLines = 6"
  by (simp_all add: docLines_def)

lemma nb: "\<not> blankLine (js ''1'')" "\<not> blankLine (js ''00:00:05,200 --> 00:00:07,000'')" "blankLine []"
  by (simp_all add: blankLine_def evs)

lemma sb: "skipBlank docLines 0 = 0" "skipBlank docLines 3 = 4" "skipBlank docLines 6 = 6"
proof -
  show "skipBlank docLines 0 = 0" by (subst skipBlank.simps) (simp add: nthL nb)
  have "skipBlank docLines 4 = 4" by (subst skipBlank.simps) (simp add: nthL nb)
  then show "skipBlank docLines 3 = 4" by (subst skipBlank.simps) (simp add: nthL nb)
  show "skipBlank docLines 6 = 6" by (subst skipBlank.simps) (simp add: nthL)
qed

lemma tr: "trim (js ''Hello <b>there</b>, friend!'') \<noteq> []" "trim (js ''[music] This is a test.'') \<noteq> []"
  "js ''Hello <b>there</b>, friend!'' \<noteq> []" "js ''[music] This is a test.'' \<noteq> []"
  "js ''Hello there , friend!'' \<noteq> []" "js ''This is a test.'' \<noteq> []"
  by (simp_all add: evs)

lemma ct2: "collectText docLines 2 [] = ([js ''Hello there , friend!''], 3)"
proof -
  have "collectText docLines 3 [js ''Hello there , friend!''] = ([js ''Hello there , friend!''], 3)"
    by (subst collectText.simps) (simp add: nthL)
  then show ?thesis
    by (subst collectText.simps) (simp add: nthL tr c1 Let_def)
qed

lemma ct5: "collectText docLines 5 [] = ([js ''This is a test.''], 6)"
proof -
  have "collectText docLines 6 [js ''This is a test.''] = ([js ''This is a test.''], 6)"
    by (subst collectText.simps) (simp add: nthL)
  then show ?thesis
    by (subst collectText.simps) (simp add: nthL tr c2 Let_def)
qed

lemma tx: "trim (replaceAll reSpaces [32] (js ''Hello there , friend!'')) = js ''Hello there , friend!''"
  "trim (replaceAll reSpaces [32] (js ''This is a test.'')) = js ''This is a test.''"
  by (simp_all add: evs)

lemma nu: "testAnchored [pPlus isDigit] True (trim (js ''1''))" "numOfDigits (trim (js ''1'')) = 1"
  "\<not> testAnchored [pPlus isDigit] True (trim (js ''00:00:05,200 --> 00:00:07,000''))"
  "js ''1'' \<noteq> []" "js ''00:00:01,000 --> 00:00:03,500'' \<noteq> []" "js ''00:00:05,200 --> 00:00:07,000'' \<noteq> []"
  by (simp_all add: evs numOfDigits_def)

lemma p6: "parseLoop docLines 6 es = es"
  by (subst parseLoop.simps) (simp add: nthL)

lemma p4: "parseLoop docLines 4 [e] =
   [e, \<lparr>e_index = 2, e_start = fround 5.2, e_end = 7, e_text = js ''This is a test.''\<rparr>]"
proof -
  have sb4: "skipBlank docLines 4 = 4" by (subst skipBlank.simps) (simp add: nthL nb)
  show ?thesis
    by (subst parseLoop.simps) (simp add: nthL sb4 sb nu t2 ct5 tx tr p6 Let_def del: One_nat_def)
qed

lemma p0: "parseLoop docLines 0 [] =
   [\<lparr>e_index = 1, e_start = 1, e_end = 3.5, e_text = js ''Hello there , friend!''\<rparr>,
    \<lparr>e_index = 2, e_start = fround 5.2, e_end = 7, e_text = js ''This is a test.''\<rparr>]"
  by (subst parseLoop.simps) (simp add: nthL sb nu t1 ct2 tx tr p4 Let_def del: One_nat_def)

lemma parse_doc: "parseSrt doc =
   [\<lparr>e_index = 1, e_start = 1, e_end = 3.5, e_text = js ''Hello there , friend!''\<rparr>,
    \<lparr>e_index = 2, e_start = fround 5.2, e_end = 7, e_text = js ''This is a test.''\<rparr>]"
proof -
  have "doc \<noteq> []" by (simp add: doc_def js_def)
  moreover have "1 \<le> fround (26 / 5)" unfolding fround_5_2(1) by simp
  ultimately show ?thesis by (simp add: parseSrt_def l0 p0)
qed

lemma pt1: "pickTitle 48 True (js ''Hello world and welcome'') = js ''Hello World And Welcome''"
  unfolding pickTitle_def Let_def by (simp add: evs)

lemma pt2: "pickTitle 48 True (js ''__________________'') = js ''__________________''"
  unfolding pickTitle_def Let_def by (simp add: evs)

lemma hh: "secToHHMM 0 = js ''00''" "secToHHMM 60 = js ''01''" "secToHHMM 120 = js ''02''"
  by (simp_all add: secToHHMM_lt_hour js_def)

lemma cf: "contentful \<lparr>e_index = a, e_start = b, e_end = c, e_text = js ''Hello world and welcome''\<rparr>"
  "contentful \<lparr>e_index = a, e_start = b, e_end = c, e_text = js ''__________________''\<rparr>"
  by (simp_all add: contentful_def evs)

lemma js_ne: "js ''00'' \<noteq> js ''01''" "js ''00'' \<noteq> js ''02''" "js ''01'' \<noteq> js ''02''"
  "js ''01'' \<noteq> js ''00''" "js ''02'' \<noteq> js ''00''" "js ''02'' \<noteq> js ''01''"
  by (simp_all add: js_def)

lemma as3: "assemble 60 48 True ex3 =
   [\<lparr>c_at = js ''00'', c_title = js ''Hello World And Welcome''\<rparr>,
    \<lparr>c_at = js ''01'', c_title = js ''__________________''\<rparr>,
    \<lparr>c_at = js ''02'', c_title = js ''Hello World And Welcome''\<rparr>]"
  unfolding assemble_def ex3_def Let_def
  by (simp add: gapOk_def fround_numeral cf hh pt1 pt2 js_ne)

lemma k1: "chapterKey lowerBasicLatin \<lparr>c_at = a, c_title = js ''Hello World And Welcome''\<rparr> = js ''hello world and welcome''"
  "chapterKey lowerBasicLatin \<lparr>c_at = a, c_title = js ''__________________''\<rparr> = []"
  unfolding chapterKey_def normKey_def lowerBasicLatin_def by (simp_all add: evs)

lemma kne: "js ''hello world and welcome'' \<noteq> []"
  by (simp add: js_def)

lemma getNone: "getMinGapSec None = 60" "getTitleMaxLen None = 48" "getPreferSentenceEnds None = True"
  by (simp_all add: getMinGapSec_def getTitleMaxLen_def getPreferSentenceEnds_def)

lemma ex3_extract:
  "extractChaptersFromSrt lowerBasicLatin (Parsed ex3) None =
     [\<lparr>c_at = js ''00'', c_title = js ''Hello World And Welcome''\<rparr>,
      \<lparr>c_at = js ''02'', c_title = js ''Hello World And Welcome''\<rparr>]"
proof -
  have e: "inputEntries (Parsed ex3) = ex3" by (simp add: inputEntries_def)
  have ne: "ex3 \<noteq> []" by (simp add: ex3_def)
  show ?thesis unfolding extract_keep e getNone as3 using ne kne by (simp add: k1)
qed




lemma capWords_Nil: "capWords b s = [] \<longleftrightarrow> s = []"
  by (cases s) simp_all














lemma rawU_lines: "splitLines (replaceAll [pOne (ch 13)] [] rawU) = rawULines"
  unfolding rawU_def rawULines_def by (simp add: evs)

lemma rawU_clean: "cleanLine (js ''_'') = js ''_''"
  unfolding cleanLine_def Let_def by (simp add: evs)

lemma rawU_ts: "tsMatch (trim (js ''00:00:01,000 --> 00:00:02,000'')) = Some (1, 2)"
  unfolding tsMatch_def
  by (simp add: evs groupAt_def tsToSec_def numOfDigits_def fround_0 fround_1 fround_numeral)

lemma rawU_nth: "rawULines ! 0 = js ''1''" "rawULines ! 1 = js ''00:00:01,000 --> 00:00:02,000''"
  "rawULines ! 2 = js ''_''" "length rawULines = 3"
  by (simp_all add: rawULines_def)

lemma rawU_collect: "collectText rawULines 2 [] = ([js ''_''], 3)"
proof -
  have "collectText rawULines 3 [js ''_''] = ([js ''_''], 3)"
    by (subst collectText.simps) (simp add: rawU_nth)
  moreover have "js ''_'' \<noteq> []" "trim (js ''_'') \<noteq> []" by (simp_all add: evs)
  ultimately show ?thesis
    by (subst collectText.simps) (simp add: rawU_nth rawU_clean Let_def)
qed

lemma rawU_parse: "parseSrt rawU = [\<lparr>e_index = 1, e_start = 1, e_end = 2, e_text = js ''_''\<rparr>]"
proof -
  have sb0: "skipBlank rawULines 0 = 0"
    by (subst skipBlank.simps) (simp add: rawU_nth nb)
  have sb3: "skipBlank rawULines 3 = 3"
    by (subst skipBlank.simps) (simp add: rawU_nth)
  have p3: "parseLoop rawULines 3 es = es" for es
    by (subst parseLoop.simps) (simp add: rawU_nth)
  have tx: "trim (replaceAll reSpaces [32] (js ''_'')) = js ''_''" "js ''_'' \<noteq> []"
    "js ''00:00:01,000 --> 00:00:02,000'' \<noteq> []"
    by (simp_all add: evs)
  have "parseLoop rawULines 0 [] = [\<lparr>e_index = 1, e_start = 1, e_end = 2, e_text = js ''_''\<rparr>]"
    by (subst parseLoop.simps)
       (simp add: rawU_nth sb0 sb3 nu rawU_ts rawU_collect tx p3 Let_def del: One_nat_def)
  moreover have "rawU \<noteq> []" by (simp add: rawU_def js_def)
  ultimately show ?thesis by (simp add: parseSrt_def rawU_lines)
qed

lemma ptU: "pickTitle 48 True (js ''_'') = js ''_''"
  unfolding pickTitle_def Let_def by (simp add: evs)

lemma kU: "chapterKey lowerBasicLatin \<lparr>c_at = a, c_title = js ''_''\<rparr> = []"
  unfolding chapterKey_def normKey_def lowerBasicLatin_def by (simp add: evs)

lemma ex3_sources:
  "extractWithSources lowerBasicLatin (Parsed ex3) None =
     [(\<lparr>c_at = js ''00'', c_title = js ''Hello World And Welcome''\<rparr>, Some (ex3 ! 0)),
      (\<lparr>c_at = js ''02'', c_title = js ''Hello World And Welcome''\<rparr>, Some (ex3 ! 2))]"
proof -
  have e: "inputEntries (Parsed ex3) = ex3" by (simp add: inputEntries_def)
  have ne: "ex3 \<noteq> []" by (simp add: ex3_def)
  have s: "scanSources 60 ex3 [] None = ex3"
    unfolding ex3_def by (simp add: gapOk_def fround_numeral cf hh js_ne)
  have a: "assembleSources 60 48 True ex3 =
     [(\<lparr>c_at = js ''00'', c_title = js ''Hello World And Welcome''\<rparr>, Some (ex3 ! 0)),
      (\<lparr>c_at = js ''01'', c_title = js ''__________________''\<rparr>, Some (ex3 ! 1)),
      (\<lparr>c_at = js ''02'', c_title = js ''Hello World And Welcome''\<rparr>, Some (ex3 ! 2))]"
    unfolding assembleSources_def Let_def s
    by (simp add: ex3_def mkChapter_def hh pt1 pt2)
  show ?thesis unfolding extractWithSources_def Let_def e getNone a using ne kne by (simp add: k1)
qed

lemma fround_gap:
  "fround (24 / 5) = 5404319552844595 / 1125899906842624"
  "fround (324 / 5) = 4559894622712627 / 70368744177664"
  "fround (67553994410557437 / 1125899906842624) = 60"
proof -
  show "fround (24 / 5) = 5404319552844595 / 1125899906842624"
    by (subst fround_lo[where m = 50]) (simp_all add: rne_def)
  show "fround (324 / 5) = 4559894622712627 / 70368744177664"
    by (subst fround_lo[where m = 46]) (simp_all add: rne_def)
  show "fround (67553994410557437 / 1125899906842624) = 60"
    by (subst fround_lo[where m = 47]) (simp_all add: rne_def)
qed

lemma ptS: "pickTitle 48 True (js ''Second part of the talk'') = js ''Second Part Of The Talk''"
  unfolding pickTitle_def Let_def by (simp add: evs)

lemma kS: "chapterKey lowerBasicLatin \<lparr>c_at = a, c_title = js ''Second Part Of The Talk''\<rparr> = js ''second part of the talk''"
  unfolding chapterKey_def normKey_def lowerBasicLatin_def by (simp add: evs)

lemma cfS: "contentful \<lparr>e_index = a, e_start = b, e_end = c, e_text = js ''Second part of the talk''\<rparr>"
  by (simp add: contentful_def evs)

lemma hhGap: "secToHHMM (5404319552844595 / 1125899906842624) = js ''00''"
  "secToHHMM (4559894622712627 / 70368744177664) = js ''01''"
  by (simp_all add: secToHHMM_lt_hour js_def)

lemma exGap_sources:
  "extractWithSources lowerBasicLatin (Parsed exGap) None =
     [(\<lparr>c_at = js ''00'', c_title = js ''Hello World And Welcome''\<rparr>, Some (exGap ! 0)),
      (\<lparr>c_at = js ''01'', c_title = js ''Second Part Of The Talk''\<rparr>, Some (exGap ! 1))]"
proof -
  have e: "inputEntries (Parsed exGap) = exGap" by (simp add: inputEntries_def)
  have ne: "exGap \<noteq> []" by (simp add: exGap_def)
  have s: "scanSources 60 exGap [] None = exGap"
    unfolding exGap_def by (simp add: gapOk_def fround_gap cf cfS hhGap js_ne)
  have a: "assembleSources 60 48 True exGap =
     [(\<lparr>c_at = js ''00'', c_title = js ''Hello World And Welcome''\<rparr>, Some (exGap ! 0)),
      (\<lparr>c_at = js ''01'', c_title = js ''Second Part Of The Talk''\<rparr>, Some (exGap ! 1))]"
    unfolding assembleSources_def Let_def s
    by (simp add: exGap_def mkChapter_def fround_gap hhGap pt1 ptS)
  have k: "js ''second part of the talk'' \<noteq> []" "js ''second part of the talk'' \<noteq> js ''hello world and welcome''"
    by (simp_all add: js_def)
  show ?thesis unfolding extractWithSources_def Let_def e getNone a using ne kne k by (simp add: k1 kS)
qed





lemma firstSome_None: "(\<And>x. x \<in> set xs \<Longrightarrow> f x = None) \<Longrightarrow> firstSome f xs = None"
  by (induction xs) simp_all

lemma firstSome_hd: "f x = Some y \<Longrightarrow> firstSome f (x # xs) = Some y"
  by simp

text \<open>A pattern with a piece that must take a code unit of a class absent from the string
  matches nowhere in it.\<close>

lemma matchPieces_absent:
  assumes "Piece c lo hi q \<in> set ps" "1 \<le> lo" "\<And>x. x \<in> set s \<Longrightarrow> \<not> c x"
  shows "matchPieces ps atEnd s = None"
  using assms
proof (induction ps arbitrary: s)
  case Nil
  then show ?case by simp
next
  case (Cons p ps)
  show ?case
  proof (cases "p = Piece c lo hi q")
    case True
    have "takeWhile c s = []" using Cons.prems(3) by (cases s) simp_all
    then have "counts p s = []" using True Cons.prems(2) by (cases hi; cases q) simp_all
    then show ?thesis by simp
  next
    case False
    then have mem: "Piece c lo hi q \<in> set ps" using Cons.prems(1) by simp
    have "matchPieces ps atEnd (drop k s) = None" for k
      using Cons.IH[OF mem Cons.prems(2)] Cons.prems(3) in_set_dropD by fast
    then show ?thesis by (simp add: firstSome_None)
  qed
qed

lemma replaceAll_nomatch:
  assumes "\<And>u. set u \<subseteq> set s \<Longrightarrow> matchLen ps False u = None"
  shows "replaceAll ps rep s = s"
  using assms
proof (induction s)
  case Nil
  then show ?case by simp
next
  case (Cons x xs)
  have "matchLen ps False (x # xs) = None" using Cons.prems by simp
  moreover have "replaceAll ps rep xs = xs" using Cons by (simp add: subset_insertI2)
  ultimately show ?case by simp
qed

lemma replaceAll_absent:
  assumes "Piece c lo hi q \<in> set ps" "1 \<le> lo" "\<And>x. x \<in> set s \<Longrightarrow> \<not> c x"
  shows "replaceAll ps rep s = s"
proof (rule replaceAll_nomatch)
  fix u assume "set u \<subseteq> set s"
  then have "matchPieces ps False u = None"
    using matchPieces_absent[OF assms(1,2)] assms(3) by blast
  then show "matchLen ps False u = None" by (simp add: matchLen_def)
qed

lemma set_replaceAll: "set (replaceAll ps rep s) \<subseteq> set s \<union> set rep"
proof (induction ps rep s rule: replaceAll.induct)
  case (1 ps rep)
  then show ?case by (auto split: option.splits)
next
  case (2 ps rep c cs)
  show ?case
  proof (cases "matchLen ps False (c # cs)")
    case None
    then show ?thesis using 2(1) by auto
  next
    case (Some k)
    show ?thesis
    proof (cases k)
      case 0
      then show ?thesis using Some 2(2) by auto
    next
      case (Suc n)
      have "set (replaceAll ps rep (drop n cs)) \<subseteq> set (drop n cs) \<union> set rep"
        using 2(3) Some Suc by simp
      moreover have "set (drop n cs) \<subseteq> set cs" by (rule set_drop_subset)
      ultimately show ?thesis using Some Suc by auto
    qed
  qed
qed

lemma set_replaceStart: "set (replaceStart ps rep s) \<subseteq> set s \<union> set rep"
proof (cases "matchLen ps False s")
  case None
  then show ?thesis by (simp add: replaceStart_def)
next
  case (Some n)
  have "set (drop n s) \<subseteq> set s" by (rule set_drop_subset)
  then show ?thesis using Some by (auto simp: replaceStart_def)
qed

lemma set_trim: "set (trim s) \<subseteq> set s"
proof -
  have "set (trim s) = set (dropWhile isSpace (rev (dropWhile isSpace s)))" by (simp add: trim_def)
  also have "\<dots> \<subseteq> set (rev (dropWhile isSpace s))" by (rule set_dropWhileD[THEN subsetI])
  also have "\<dots> \<subseteq> set s" using set_dropWhileD by fastforce
  finally show ?thesis .
qed

text \<open>A pattern of one class, taken once.\<close>

lemma matchLen_one:
  "matchLen [pOne c] False (x # xs) = (if c x then Some 1 else None)"
  "matchLen [pOne c] False [] = None"
  by (simp_all add: matchLen_def pOne_def)

lemma replaceAll_one:
  "replaceAll [pOne c] rep s = concat (map (\<lambda>x. if c x then rep else [x]) s)"
  by (induction s) (simp_all add: matchLen_one)

lemma replaceAll_one_clean:
  assumes "\<And>x. x \<in> set rep \<Longrightarrow> \<not> c x"
  shows "\<forall>x \<in> set (replaceAll [pOne c] rep s). \<not> c x"
  using assms by (auto simp: replaceAll_one)

text \<open>The pattern \<open>\s+\<close>.\<close>

lemma matchLen_spaces:
  "matchLen reSpaces False s =
     (if takeWhile isSpace s = [] then None else Some (length (takeWhile isSpace s)))"
proof (cases "takeWhile isSpace s = []")
  case True
  then show ?thesis by (simp add: matchLen_def reSpaces_def pPlus_def)
next
  case False
  then obtain n where n: "length (takeWhile isSpace s) = Suc n" by (cases "takeWhile isSpace s") simp_all
  have "rev [1..<Suc (Suc n)] = Suc n # rev [1..<Suc n]" by simp
  then show ?thesis using False n by (simp add: matchLen_def reSpaces_def pPlus_def)
qed

lemma replaceAll_spaces_Cons:
  "replaceAll reSpaces [32] (x # xs) =
     (if isSpace x then 32 # replaceAll reSpaces [32] (dropWhile isSpace xs)
      else x # replaceAll reSpaces [32] xs)"
proof (cases "isSpace x")
  case True
  have "drop (length (takeWhile isSpace xs)) xs = dropWhile isSpace xs"
    by (simp add: dropWhile_eq_drop)
  then show ?thesis using True by (simp add: matchLen_spaces)
next
  case False
  then show ?thesis by (simp add: matchLen_spaces)
qed

lemma replaceAll_spaces_Nil: "replaceAll reSpaces [32] [] = []"
  by (simp add: matchLen_spaces)

lemmas replaceAll_spaces = replaceAll_spaces_Nil replaceAll_spaces_Cons

lemma replaceAll_spaces_hd:
  "s \<noteq> [] \<Longrightarrow> \<not> isSpace (hd s) \<Longrightarrow> replaceAll reSpaces [32] s = hd s # replaceAll reSpaces [32] (tl s)"
  by (cases s) (simp_all add: replaceAll_spaces_Cons del: replaceAll.simps)

lemma collapsed_replaceAll: "collapsed (replaceAll reSpaces [32] w)"
proof (induction "length w" arbitrary: w rule: less_induct)
  case less
  show ?case
  proof (cases w)
    case Nil
    then show ?thesis by (simp add: replaceAll_spaces del: replaceAll.simps)
  next
    case (Cons x xs)
    show ?thesis
    proof (cases "isSpace x")
      case True
      let ?d = "dropWhile isSpace xs"
      have len: "length ?d < length w" using Cons by (simp add: le_imp_less_Suc length_dropWhile_le)
      have ih: "collapsed (replaceAll reSpaces [32] ?d)" using less len by simp
      have r: "replaceAll reSpaces [32] w = 32 # replaceAll reSpaces [32] ?d"
        using Cons True by (simp add: replaceAll_spaces del: replaceAll.simps)
      show ?thesis
      proof (cases ?d)
        case Nil
        have "replaceAll reSpaces [32] w = [32]"
          unfolding r Nil replaceAll_spaces_Nil ..
        then show ?thesis by simp
      next
        case (Cons y ys)
        then have ny: "\<not> isSpace y" by (metis hd_dropWhile list.sel(1) list.simps(3))
        then have "replaceAll reSpaces [32] ?d = y # replaceAll reSpaces [32] ys"
          using Cons by (simp add: replaceAll_spaces del: replaceAll.simps)
        then show ?thesis using r ih ny by simp
      qed
    next
      case False
      have ih: "collapsed (replaceAll reSpaces [32] xs)" using less Cons by simp
      have r: "replaceAll reSpaces [32] w = x # replaceAll reSpaces [32] xs"
        using Cons False by (simp add: replaceAll_spaces del: replaceAll.simps)
      show ?thesis using r ih False by (cases "replaceAll reSpaces [32] xs") simp_all
    qed
  qed
qed

lemma collapsed_fix: "collapsed t \<Longrightarrow> replaceAll reSpaces [32] t = t"
proof (induction t rule: collapsed.induct)
  case 1
  show ?case by (simp add: replaceAll_spaces del: replaceAll.simps)
next
  case (2 x)
  then show ?case by (auto simp: replaceAll_spaces simp del: replaceAll.simps)
next
  case (3 x y ys)
  then show ?case by (auto simp: replaceAll_spaces simp del: replaceAll.simps)
qed

lemma collapsed_tl: "collapsed (x # xs) \<Longrightarrow> collapsed xs"
  by (cases xs) simp_all

lemma collapsed_dropWhile: "collapsed s \<Longrightarrow> collapsed (dropWhile P s)"
  by (induction s) (auto dest: collapsed_tl)

lemma collapsed_take: "collapsed s \<Longrightarrow> collapsed (take n s)"
proof (induction s arbitrary: n rule: collapsed.induct)
  case 1
  show ?case by simp
next
  case (2 x)
  then show ?case by (cases n) simp_all
next
  case (3 x y ys)
  show ?case
  proof (cases n)
    case 0
    then show ?thesis by simp
  next
    case (Suc m)
    have ih: "collapsed (take m (y # ys))" using 3 by simp
    show ?thesis
    proof (cases m)
      case 0
      then show ?thesis using Suc 3(2) by simp
    next
      case (Suc k)
      then show ?thesis using \<open>n = Suc m\<close> ih 3(2) by simp
    qed
  qed
qed

lemma rev_dropWhile_rev: "rev (dropWhile P (rev s)) = take (length s - length (takeWhile P (rev s))) s"
proof -
  have "dropWhile P (rev s) = drop (length (takeWhile P (rev s))) (rev s)"
    by (simp add: dropWhile_eq_drop)
  then show ?thesis by (simp add: rev_drop)
qed

lemma collapsed_trim: "collapsed s \<Longrightarrow> collapsed (trim s)"
  unfolding trim_def rev_dropWhile_rev by (intro collapsed_take collapsed_dropWhile)

lemma trim_ends: "trim s = [] \<or> (\<not> isSpace (hd (trim s)) \<and> \<not> isSpace (last (trim s)))"
proof (cases "trim s = []")
  case True
  then show ?thesis by simp
next
  case False
  let ?u = "dropWhile isSpace s"
  let ?v = "dropWhile isSpace (rev ?u)"
  have t: "trim s = rev ?v" by (simp add: trim_def)
  have v: "?v \<noteq> []" using False t by simp
  have l: "\<not> isSpace (last (trim s))" using hd_dropWhile[OF v] v t by (simp add: last_rev)
  have "trim s = take (length ?u - length (takeWhile isSpace (rev ?u))) ?u"
    unfolding trim_def by (rule rev_dropWhile_rev)
  then have "hd (trim s) = hd ?u" "?u \<noteq> []" using False by (metis hd_take take_eq_Nil length_0_conv not_gr_zero take_Nil)+
  then have "\<not> isSpace (hd (trim s))" using hd_dropWhile[of isSpace s] by simp
  then show ?thesis using l by simp
qed

lemma trim_fix: "t = [] \<or> (\<not> isSpace (hd t) \<and> \<not> isSpace (last t)) \<Longrightarrow> trim t = t"
proof (cases "t = []")
  case True
  then show ?thesis by (simp add: trim_def)
next
  case False
  assume "t = [] \<or> (\<not> isSpace (hd t) \<and> \<not> isSpace (last t))"
  then have h: "\<not> isSpace (hd t)" "\<not> isSpace (last t)" using False by simp_all
  have a: "dropWhile isSpace t = t" using h(1) False by (cases t) simp_all
  have b: "dropWhile isSpace (rev t) = rev t" using h(2) False by (cases t rule: rev_cases) simp_all
  show ?thesis by (simp add: trim_def a b)
qed

lemma trim_idem: "trim (trim s) = trim s"
  by (rule trim_fix) (rule trim_ends)

lemma collapsed_space: "collapsed t \<Longrightarrow> x \<in> set t \<Longrightarrow> isSpace x \<Longrightarrow> x = 32"
  by (induction t rule: collapsed.induct) auto

lemma cleanLine_core:
  "cleanLine s = (if testAnchored [pPlus isPunct] True (cleanCore s) then [] else cleanCore s)"
  unfolding cleanLine_def cleanCore_def Let_def ..

lemma cleanCore_collapsed: "collapsed (cleanCore s)"
  unfolding cleanCore_def by (intro collapsed_trim collapsed_replaceAll)

lemma cleanCore_trim: "trim (cleanCore s) = cleanCore s"
  unfolding cleanCore_def by (rule trim_idem)

lemma cleanCore_chars:
  assumes "x \<in> set (cleanCore s)"
  shows "31 < x \<and> x \<noteq> 8220 \<and> x \<noteq> 8221 \<and> x \<noteq> 8216 \<and> x \<noteq> 8217 \<and> x \<noteq> 8211 \<and> x \<noteq> 8212"
proof -
  define a1 where "a1 = replaceAll reCtrl [32] (replaceAll reBom [] s)"
  define a4 where "a4 = replaceAll reCue [32] (replaceStart reSpeaker []
           (replaceAll reAss [32] (replaceAll reHtml [32] a1)))"
  define q1 where "q1 = replaceAll reDquote [34] a4"
  define q2 where "q2 = replaceAll reSquote [39] q1"
  define a5 where "a5 = replaceAll reDash [45] q2"
  have core: "cleanCore s = trim (replaceAll reSpaces [32] a5)"
    by (simp add: cleanCore_def a5_def q2_def q1_def a4_def a1_def)
  have c1: "\<forall>y \<in> set a1. \<not> y \<le> 31"
    unfolding a1_def reCtrl_def by (rule replaceAll_one_clean) simp
  define h1 where "h1 = replaceAll reHtml [32] a1"
  define h2 where "h2 = replaceAll reAss [32] h1"
  define h3 where "h3 = replaceStart reSpeaker [] h2"
  have a4: "a4 = replaceAll reCue [32] h3" by (simp add: a4_def h3_def h2_def h1_def)
  have "set h1 \<subseteq> set a1 \<union> {32}" unfolding h1_def using set_replaceAll[of reHtml "[32]" a1] by simp
  moreover have "set h2 \<subseteq> set h1 \<union> {32}" unfolding h2_def using set_replaceAll[of reAss "[32]" h1] by simp
  moreover have "set h3 \<subseteq> set h2" unfolding h3_def using set_replaceStart[of reSpeaker "[]" h2] by simp
  moreover have "set a4 \<subseteq> set h3 \<union> {32}" unfolding a4 using set_replaceAll[of reCue "[32]" h3] by simp
  ultimately have s4: "set a4 \<subseteq> set a1 \<union> {32}" by blast
  have d1: "\<forall>y \<in> set q1. \<not> (y = 8220 \<or> y = 8221)"
    unfolding q1_def reDquote_def by (rule replaceAll_one_clean) simp
  have d2: "\<forall>y \<in> set q2. \<not> (y = 8216 \<or> y = 8217)"
    unfolding q2_def reSquote_def by (rule replaceAll_one_clean) simp
  have d3: "\<forall>y \<in> set a5. \<not> (y = 8211 \<or> y = 8212)"
    unfolding a5_def reDash_def by (rule replaceAll_one_clean) simp
  have s1: "set q1 \<subseteq> set a4 \<union> {34}" unfolding q1_def using set_replaceAll[of reDquote "[34]" a4] by simp
  have s2: "set q2 \<subseteq> set q1 \<union> {39}" unfolding q2_def using set_replaceAll[of reSquote "[39]" q1] by simp
  have s3: "set a5 \<subseteq> set q2 \<union> {45}" unfolding a5_def using set_replaceAll[of reDash "[45]" q2] by simp
  have "set (cleanCore s) \<subseteq> set a5 \<union> {32}"
    unfolding core using set_trim[of "replaceAll reSpaces [32] a5"] set_replaceAll[of reSpaces "[32]" a5]
    by auto
  then have x5: "x \<in> set a5 \<or> x = 32" using assms by auto
  show ?thesis
  proof (cases "x = 32 \<or> x = 34 \<or> x = 39 \<or> x = 45")
    case True
    then show ?thesis by auto
  next
    case False
    then have m5: "x \<in> set a5" using x5 by simp
    then have m2: "x \<in> set q2" using s3 False by auto
    then have m1: "x \<in> set q1" using s2 False by auto
    then have "x \<in> set a4" using s1 False by auto
    then have m0: "x \<in> set a1" using s4 False by auto
    have "\<not> x \<le> 31" using c1 m0 by (rule bspec)
    moreover have "\<not> (x = 8220 \<or> x = 8221)" using d1 m1 by (rule bspec)
    moreover have "\<not> (x = 8216 \<or> x = 8217)" using d2 m2 by (rule bspec)
    moreover have "\<not> (x = 8211 \<or> x = 8212)" using d3 m5 by (rule bspec)
    ultimately show ?thesis by simp
  qed
qed

lemma cleanLine_Nil: "cleanLine [] = []"
  unfolding cleanLine_def Let_def
  by (simp add: matchLen_def replaceStart_def testAnchored_def trim_def
      reBom_def reCtrl_def reHtml_def reAss_def reSpeaker_def reCue_def reDquote_def
      reSquote_def reDash_def reSpaces_def pOne_def pOpt_def pPlus_def)

lemma firstSome_None_iff: "firstSome f xs = None \<longleftrightarrow> (\<forall>x \<in> set xs. f x = None)"
  by (induction xs) (auto split: option.splits)

lemma matchPieces_pOne:
  "matchPieces (pOne (ch a) # ps) e s =
     (case s of [] \<Rightarrow> None
      | x # xs \<Rightarrow> if x = a then map_option ((#) 1) (matchPieces ps e xs) else None)"
proof (cases s)
  case Nil
  then show ?thesis by (simp add: pOne_def)
next
  case (Cons x xs)
  show ?thesis
  proof (cases "x = a")
    case True
    then show ?thesis using Cons by (cases "matchPieces ps e xs") (simp_all add: pOne_def ch_def)
  next
    case False
    then show ?thesis using Cons by (simp add: pOne_def ch_def)
  qed
qed

lemma tail_match:
  "matchPieces [pPlus (\<lambda>c. c \<noteq> cl), pOne (ch cl)] False s = None \<longleftrightarrow> blocked cl s"
proof -
  define n where "n = length (takeWhile (\<lambda>c. c \<noteq> cl) s)"
  define f where "f = (\<lambda>k. map_option ((#) k) (matchPieces [pOne (ch cl)] False (drop k s)))"
  have m: "matchPieces [pPlus (\<lambda>c. c \<noteq> cl), pOne (ch cl)] False s = firstSome f (rev [1..<Suc n])"
    unfolding f_def n_def by (simp add: pPlus_def del: upt_Suc)
  have fk: "f k = None \<longleftrightarrow> (drop k s = [] \<or> hd (drop k s) \<noteq> cl)" for k
    unfolding f_def matchPieces_pOne by (cases "drop k s") simp_all
  have none: "firstSome f (rev [1..<Suc n]) = None \<longleftrightarrow> (\<forall>k. 1 \<le> k \<and> k \<le> n \<longrightarrow> f k = None)"
    unfolding firstSome_None_iff by auto
  show ?thesis
  proof
    assume b: "blocked cl s"
    have "f k = None" if k: "1 \<le> k" "k \<le> n" for k
    proof -
      have "s \<noteq> []" "hd s \<noteq> cl" using k unfolding n_def by (cases s; auto)+
      then have nin: "cl \<notin> set s" using b by (simp add: blocked_def)
      show ?thesis
      proof (cases "drop k s = []")
        case True
        then show ?thesis by (simp add: fk)
      next
        case False
        then have "hd (drop k s) \<in> set (drop k s)" by simp
        then have "hd (drop k s) \<in> set s" by (rule in_set_dropD)
        then show ?thesis using nin by (auto simp: fk)
      qed
    qed
    then show "matchPieces [pPlus (\<lambda>c. c \<noteq> cl), pOne (ch cl)] False s = None"
      unfolding m none by blast
  next
    assume a: "matchPieces [pPlus (\<lambda>c. c \<noteq> cl), pOne (ch cl)] False s = None"
    show "blocked cl s"
    proof (rule ccontr)
      assume nb: "\<not> blocked cl s"
      then have s: "s \<noteq> []" "hd s \<noteq> cl" "cl \<in> set s" by (simp_all add: blocked_def)
      then have n1: "1 \<le> n" unfolding n_def by (cases s) simp_all
      have d: "drop n s = dropWhile (\<lambda>c. c \<noteq> cl) s" unfolding n_def by (simp add: dropWhile_eq_drop)
      have ne: "dropWhile (\<lambda>c. c \<noteq> cl) s \<noteq> []" using s(3) by (simp add: dropWhile_eq_Nil_conv) 
      then have "hd (dropWhile (\<lambda>c. c \<noteq> cl) s) = cl" using hd_dropWhile[of "\<lambda>c. c \<noteq> cl" s] by simp
      then have "f n \<noteq> None" using ne by (simp add: fk d)
      moreover have "f n = None" using a n1 unfolding m none by blast
      ultimately show False by simp
    qed
  qed
qed

lemma html_None:
  "matchLen reHtml False [] = None"
  "matchLen reHtml False (c # cs) = None \<longleftrightarrow> (c = 60 \<longrightarrow> blocked 62 cs)"
  unfolding matchLen_def reHtml_def matchPieces_pOne
  using tail_match[of 62 cs] by (auto simp: ch_def)

lemma ass_None:
  "matchLen reAss False [] = None"
  "matchLen reAss False (c # cs) = None \<longleftrightarrow> (c = 123 \<longrightarrow> assBlocked cs)"
proof -
  show "matchLen reAss False [] = None"
    unfolding matchLen_def reAss_def matchPieces_pOne by simp
  show "matchLen reAss False (c # cs) = None \<longleftrightarrow> (c = 123 \<longrightarrow> assBlocked cs)"
  proof (cases cs)
    case Nil
    then show ?thesis unfolding matchLen_def reAss_def matchPieces_pOne by (simp add: assBlocked_def)
  next
    case (Cons d ds)
    then show ?thesis unfolding matchLen_def reAss_def matchPieces_pOne
      using tail_match[of 125 ds] by (auto simp: assBlocked_def)
  qed
qed

lemma stable_fix: "stable ps s \<Longrightarrow> replaceAll ps rep s = s"
  by (induction s) simp_all

declare stable.simps [simp del]

lemma matchPieces_reject:
  assumes "Piece c0 lo0 hi0 q0 \<in> set ps" "1 \<le> lo0"
    and "\<And>c lo hi q. Piece c lo hi q \<in> set ps \<Longrightarrow> \<not> c x"
  shows "matchPieces ps e (x # v) = None"
  using assms
proof (induction ps)
  case Nil
  then show ?case by simp
next
  case (Cons p ps)
  obtain c lo hi q where p: "p = Piece c lo hi q" by (cases p)
  have nc: "\<not> c x" using Cons.prems(3)[of c lo hi q] p by simp
  have cnt: "counts p (x # v) = (if lo = 0 then [0] else [])"
    unfolding p using nc by (cases hi; cases q) simp_all
  show ?case
  proof (cases "lo = 0")
    case False
    then show ?thesis by (simp add: cnt)
  next
    case True
    then have "p \<noteq> Piece c0 lo0 hi0 q0" using p Cons.prems(2) by auto
    then have mem: "Piece c0 lo0 hi0 q0 \<in> set ps" using Cons.prems(1) by simp
    have "\<And>c lo hi q. Piece c lo hi q \<in> set ps \<Longrightarrow> \<not> c x"
      using Cons.prems(3) by (meson list.set_intros(2))
    then have "matchPieces ps e (x # v) = None"
      by (rule Cons.IH[OF mem Cons.prems(2)])
    then show ?thesis using True by (simp add: cnt)
  qed
qed

lemma matchLen_reject:
  assumes "Piece c0 lo0 hi0 q0 \<in> set ps" "1 \<le> lo0"
    and "\<And>c lo hi q. Piece c lo hi q \<in> set ps \<Longrightarrow> \<not> c x"
  shows "matchLen ps False (x # v) = None"
  unfolding matchLen_def using matchPieces_reject[OF assms] by simp

lemma replaceAll_Nil_cases: "replaceAll ps [r] [] = [] \<or> replaceAll ps [r] [] = [r]"
  by (cases "matchLen ps False []") simp_all

lemma replaceAll_Cons_cases:
  "(matchLen ps False (c # cs) = None \<and> replaceAll ps [r] (c # cs) = c # replaceAll ps [r] cs)
   \<or> (matchLen ps False (c # cs) = Some 0 \<and> replaceAll ps [r] (c # cs) = r # c # replaceAll ps [r] cs)
   \<or> (\<exists>n. matchLen ps False (c # cs) = Some (Suc n)
          \<and> replaceAll ps [r] (c # cs) = r # replaceAll ps [r] (drop n cs))"
proof (cases "matchLen ps False (c # cs)")
  case None
  then show ?thesis by simp
next
  case (Some k)
  then show ?thesis by (cases k) simp_all
qed

lemma blocked_replaceAll:
  assumes "blocked cl s" "r \<noteq> cl" "\<And>v. matchLen ps False (cl # v) = None"
  shows "blocked cl (replaceAll ps [r] s)"
proof (cases s)
  case Nil
  then show ?thesis using replaceAll_Nil_cases[of ps r] assms(2) by (auto simp: blocked_def)
next
  case (Cons x xs)
  show ?thesis
  proof (cases "x = cl")
    case True
    then have "replaceAll ps [r] s = cl # replaceAll ps [r] xs" using Cons assms(3)[of xs] by simp
    then show ?thesis by (simp add: blocked_def)
  next
    case False
    then have "cl \<notin> set s" using assms(1) Cons by (simp add: blocked_def)
    then have "cl \<notin> set (replaceAll ps [r] s)" using set_replaceAll[of ps "[r]" s] assms(2) by auto
    then show ?thesis by (simp add: blocked_def)
  qed
qed

lemma blocked_take: "blocked cl s \<Longrightarrow> blocked cl (take n s)"
proof -
  assume b: "blocked cl s"
  show ?thesis
  proof (cases "take n s = []")
    case True
    then show ?thesis by (simp add: blocked_def)
  next
    case False
    then have s: "s \<noteq> []" "0 < n" by auto
    then have h: "hd (take n s) = hd s" by (cases s; cases n) simp_all
    have "cl \<notin> set s \<Longrightarrow> cl \<notin> set (take n s)" by (meson in_set_takeD)
    then show ?thesis using b s h by (auto simp: blocked_def)
  qed
qed

lemma assBlocked_replaceAll:
  assumes "assBlocked s" "r \<noteq> 92" "r \<noteq> 125" "\<And>v. matchLen ps False (125 # v) = None"
  shows "assBlocked (replaceAll ps [r] s)"
proof (cases s)
  case Nil
  then show ?thesis using replaceAll_Nil_cases[of ps r] assms(2) by (auto simp: assBlocked_def)
next
  case (Cons d ds)
  have b: "d = 92 \<longrightarrow> blocked 125 (replaceAll ps [r] ds)"
    using assms(1) Cons blocked_replaceAll[of 125 ds r ps] assms(3,4) by (simp add: assBlocked_def)
  from replaceAll_Cons_cases[of ps d ds r] show ?thesis
    unfolding Cons using b assms(2) by (auto simp: assBlocked_def)
qed

lemma assBlocked_take: "assBlocked s \<Longrightarrow> assBlocked (take n s)"
proof (cases s)
  case Nil
  then show ?thesis by (simp add: assBlocked_def)
next
  case (Cons d ds)
  assume "assBlocked s"
  then have "d = 92 \<longrightarrow> blocked 125 ds" using Cons by (simp add: assBlocked_def)
  then have "d = 92 \<longrightarrow> blocked 125 (take m ds)" for m using blocked_take by blast
  then show ?thesis using Cons by (cases n) (simp_all add: assBlocked_def)
qed

text \<open>Stability under the pattern of the tags, in terms of the code units.\<close>

lemma stable_html:
  "stable reHtml [] = True"
  "stable reHtml (c # cs) = ((c = 60 \<longrightarrow> blocked 62 cs) \<and> stable reHtml cs)"
  by (simp_all add: stable.simps html_None)

lemma stable_ass:
  "stable reAss [] = True"
  "stable reAss (c # cs) = ((c = 123 \<longrightarrow> assBlocked cs) \<and> stable reAss cs)"
  by (simp_all add: stable.simps ass_None)

lemma html_drop: "stable reHtml s \<Longrightarrow> stable reHtml (drop n s)"
proof (induction s arbitrary: n)
  case Nil
  then show ?case by simp
next
  case (Cons c cs)
  then show ?case by (cases n) (simp_all add: stable_html)
qed

lemma html_dropWhile: "stable reHtml s \<Longrightarrow> stable reHtml (dropWhile Q s)"
  by (induction s) (simp_all add: stable_html)

lemma html_take: "stable reHtml s \<Longrightarrow> stable reHtml (take n s)"
proof (induction s arbitrary: n)
  case Nil
  then show ?case by simp
next
  case (Cons c cs)
  show ?case
  proof (cases n)
    case 0
    then show ?thesis by (simp add: stable_html)
  next
    case (Suc m)
    have "stable reHtml (take m cs)" using Cons by (simp add: stable_html)
    moreover have "c = 60 \<longrightarrow> blocked 62 (take m cs)"
      using Cons.prems blocked_take by (simp add: stable_html)
    ultimately show ?thesis using Suc by (simp add: stable_html)
  qed
qed

lemma html_trim: "stable reHtml s \<Longrightarrow> stable reHtml (trim s)"
  unfolding trim_def rev_dropWhile_rev by (intro html_take html_dropWhile)

lemma html_replaceStart: "stable reHtml s \<Longrightarrow> stable reHtml (replaceStart ps [] s)"
  by (cases "matchLen ps False s") (simp_all add: replaceStart_def html_drop)

lemma html_replaceAll:
  assumes "stable reHtml s" "r \<noteq> 60" "r \<noteq> 62" "\<And>v. matchLen ps False (62 # v) = None"
  shows "stable reHtml (replaceAll ps [r] s)"
  using assms(1)
proof (induction "length s" arbitrary: s rule: less_induct)
  case less
  show ?case
  proof (cases s)
    case Nil
    then show ?thesis using replaceAll_Nil_cases[of ps r] assms(2) by (auto simp: stable_html)
  next
    case (Cons c cs)
    have st: "c = 60 \<longrightarrow> blocked 62 cs" "stable reHtml cs" using less.prems Cons by (simp_all add: stable_html)
    have b: "c = 60 \<longrightarrow> blocked 62 (replaceAll ps [r] cs)"
      using st(1) blocked_replaceAll[of 62 cs r ps] assms(3,4) by blast
    have ih: "stable reHtml (replaceAll ps [r] cs)" using less.hyps[of cs] st(2) Cons by simp
    have ihd: "stable reHtml (replaceAll ps [r] (drop n cs))" for n
      using less.hyps[of "drop n cs"] html_drop[OF st(2)] Cons by simp
    from replaceAll_Cons_cases[of ps c cs r] show ?thesis
      unfolding Cons using b ih ihd assms(2) by (auto simp: stable_html)
  qed
qed

lemma ass_drop: "stable reAss s \<Longrightarrow> stable reAss (drop n s)"
proof (induction s arbitrary: n)
  case Nil
  then show ?case by simp
next
  case (Cons c cs)
  then show ?case by (cases n) (simp_all add: stable_ass)
qed

lemma ass_dropWhile: "stable reAss s \<Longrightarrow> stable reAss (dropWhile Q s)"
  by (induction s) (simp_all add: stable_ass)

lemma ass_take: "stable reAss s \<Longrightarrow> stable reAss (take n s)"
proof (induction s arbitrary: n)
  case Nil
  then show ?case by simp
next
  case (Cons c cs)
  show ?case
  proof (cases n)
    case 0
    then show ?thesis by (simp add: stable_ass)
  next
    case (Suc m)
    have "stable reAss (take m cs)" using Cons by (simp add: stable_ass)
    moreover have "c = 123 \<longrightarrow> assBlocked (take m cs)"
      using Cons.prems assBlocked_take by (simp add: stable_ass)
    ultimately show ?thesis using Suc by (simp add: stable_ass)
  qed
qed

lemma ass_trim: "stable reAss s \<Longrightarrow> stable reAss (trim s)"
  unfolding trim_def rev_dropWhile_rev by (intro ass_take ass_dropWhile)

lemma ass_replaceStart: "stable reAss s \<Longrightarrow> stable reAss (replaceStart ps [] s)"
  by (cases "matchLen ps False s") (simp_all add: replaceStart_def ass_drop)

lemma ass_replaceAll:
  assumes "stable reAss s" "r \<noteq> 123" "r \<noteq> 92" "r \<noteq> 125" "\<And>v. matchLen ps False (125 # v) = None"
  shows "stable reAss (replaceAll ps [r] s)"
  using assms(1)
proof (induction "length s" arbitrary: s rule: less_induct)
  case less
  show ?case
  proof (cases s)
    case Nil
    then show ?thesis using replaceAll_Nil_cases[of ps r] assms(2) by (auto simp: stable_ass)
  next
    case (Cons c cs)
    have st: "c = 123 \<longrightarrow> assBlocked cs" "stable reAss cs" using less.prems Cons by (simp_all add: stable_ass)
    have b: "c = 123 \<longrightarrow> assBlocked (replaceAll ps [r] cs)"
      using st(1) assBlocked_replaceAll[of cs r ps] assms(3,4,5) by blast
    have ih: "stable reAss (replaceAll ps [r] cs)" using less.hyps[of cs] st(2) Cons by simp
    have ihd: "stable reAss (replaceAll ps [r] (drop n cs))" for n
      using less.hyps[of "drop n cs"] ass_drop[OF st(2)] Cons by simp
    from replaceAll_Cons_cases[of ps c cs r] show ?thesis
      unfolding Cons using b ih ihd assms(2) by (auto simp: stable_ass)
  qed
qed

lemma html_pos: "matchLen reHtml False s \<noteq> Some 0"
  unfolding matchLen_def reHtml_def matchPieces_pOne by (cases s) auto

lemma ass_pos: "matchLen reAss False s \<noteq> Some 0"
  unfolding matchLen_def reAss_def matchPieces_pOne by (cases s) auto

lemma html_self: "stable reHtml (replaceAll reHtml [32] s)"
proof (induction "length s" arbitrary: s rule: less_induct)
  case less
  show ?case
  proof (cases s)
    case Nil
    then show ?thesis by (simp add: html_None stable_html)
  next
    case (Cons c cs)
    have nm: "matchLen reHtml False (62 # v) = None" for v by (simp add: html_None)
    have ih: "stable reHtml (replaceAll reHtml [32] cs)" using less.hyps[of cs] Cons by simp
    have ihd: "stable reHtml (replaceAll reHtml [32] (drop n cs))" for n
      using less.hyps[of "drop n cs"] Cons by simp
    have b: "matchLen reHtml False (c # cs) = None \<Longrightarrow> c = 60 \<longrightarrow> blocked 62 (replaceAll reHtml [32] cs)"
      using blocked_replaceAll[of 62 cs 32 reHtml] nm by (simp add: html_None)
    from replaceAll_Cons_cases[of reHtml c cs 32] show ?thesis
      unfolding Cons using b ih ihd html_pos[of "c # cs"] by (auto simp: stable_html)
  qed
qed

lemma ass_self: "stable reAss (replaceAll reAss [32] s)"
proof (induction "length s" arbitrary: s rule: less_induct)
  case less
  show ?case
  proof (cases s)
    case Nil
    then show ?thesis by (simp add: ass_None stable_ass)
  next
    case (Cons c cs)
    have nm: "matchLen reAss False (125 # v) = None" for v by (simp add: ass_None)
    have ih: "stable reAss (replaceAll reAss [32] cs)" using less.hyps[of cs] Cons by simp
    have ihd: "stable reAss (replaceAll reAss [32] (drop n cs))" for n
      using less.hyps[of "drop n cs"] Cons by simp
    have b: "matchLen reAss False (c # cs) = None \<Longrightarrow> c = 123 \<longrightarrow> assBlocked (replaceAll reAss [32] cs)"
      using assBlocked_replaceAll[of cs 32 reAss] nm by (simp add: ass_None)
    from replaceAll_Cons_cases[of reAss c cs 32] show ?thesis
      unfolding Cons using b ih ihd ass_pos[of "c # cs"] by (auto simp: stable_ass)
  qed
qed

text \<open>No pattern of the later steps matches from a \<open>></\<close> or a \<open>}\<close>.\<close>

lemma later_reject:
  assumes "x = 62 \<or> x = 125"
  shows "matchLen reCue False (x # v) = None" "matchLen reDquote False (x # v) = None"
    "matchLen reSquote False (x # v) = None" "matchLen reDash False (x # v) = None"
    "matchLen reSpaces False (x # v) = None"
proof -
  show "matchLen reCue False (x # v) = None"
    by (rule matchLen_reject[of "\<lambda>c. c = 93 \<or> c = 41" 1 "Some 1" Greedy])
       (use assms in \<open>auto simp: reCue_def pOpt_def pOne_def isUpper_def isLower_def\<close>)
  show "matchLen reDquote False (x # v) = None"
    by (rule matchLen_reject[of "\<lambda>c. c = 8220 \<or> c = 8221" 1 "Some 1" Greedy])
       (use assms in \<open>auto simp: reDquote_def pOne_def\<close>)
  show "matchLen reSquote False (x # v) = None"
    by (rule matchLen_reject[of "\<lambda>c. c = 8216 \<or> c = 8217" 1 "Some 1" Greedy])
       (use assms in \<open>auto simp: reSquote_def pOne_def\<close>)
  show "matchLen reDash False (x # v) = None"
    by (rule matchLen_reject[of "\<lambda>c. c = 8211 \<or> c = 8212" 1 "Some 1" Greedy])
       (use assms in \<open>auto simp: reDash_def pOne_def\<close>)
  show "matchLen reSpaces False (x # v) = None"
    by (rule matchLen_reject[of isSpace 1 None Greedy])
       (use assms in \<open>auto simp: reSpaces_def pPlus_def isSpace_def\<close>)
qed

lemma html_clean: "stable reHtml (cleanCore s)"
  unfolding cleanCore_def
  by (intro html_trim html_replaceAll html_replaceStart html_self)
     (simp_all add: later_reject ass_None)

lemma ass_clean: "stable reAss (cleanCore s)"
  unfolding cleanCore_def
  by (intro ass_trim ass_replaceAll ass_replaceStart ass_self)
     (simp_all add: later_reject)

lemma clean_label1: "cleanLine (js ''A: B: c'') = js ''B: c''"
  unfolding cleanLine_def Let_def by (simp add: evs)

lemma clean_label2: "cleanLine (js ''B: c'') = js ''c''"
  unfolding cleanLine_def Let_def by (simp add: evs)

lemma clean_cue1: "cleanLine (js ''x (ab cd))'') = js ''x )''"
  unfolding cleanLine_def Let_def by (simp add: evs)

lemma clean_cue2: "cleanLine (js ''x )'') = []"
  unfolding cleanLine_def Let_def by (simp add: evs)

lemma clean_lt: "cleanLine (js ''a < b'') = js ''a < b''"
  unfolding cleanLine_def Let_def by (simp add: evs)

section \<open>The claims\<close>

text \<open>Claim C5, as stated: on the document of the six lines \<open>1\<close>,
  \<open>00:00:01,000 --> 00:00:03,500\<close>, \<open>Hello <b>there</b>, friend!\<close>, the empty line,
  \<open>00:00:05,200 --> 00:00:07,000\<close> and \<open>[music] This is a test.\<close>, \<open>parseSrt\<close> would return
  the text \<open>Hello there, friend!\<close> for the first cue. It does not: \<open>cleanLine\<close> puts a
  space in place of each tag, so a space stays before the comma.\<close>

theorem parse_scenario_counterexample:
  "parseSrt doc \<noteq>
     [\<lparr>e_index = 1, e_start = 1, e_end = 3.5, e_text = js ''Hello there, friend!''\<rparr>,
      \<lparr>e_index = 2, e_start = fround 5.2, e_end = 7, e_text = js ''This is a test.''\<rparr>]"
  by (simp add: parse_doc js_def)

text \<open>Claim C5, amended: on that document \<open>parseSrt\<close> returns exactly two entries,
  index 1 from 1 to 3.5 seconds with the text \<open>Hello there , friend!\<close>, and index 2 (given
  by position, the cue has no index line) from 5.2 to 7 seconds with the text
  \<open>This is a test.\<close> The numbers are doubles: 1, 3.5 and 7 are, and 5.2 is the double
  nearest to it, \<open>fround 5.2\<close>, which the rounded sum \<open>5 + 200 / 1000\<close> is.\<close>

theorem parse_scenario:
  "parseSrt doc =
     [\<lparr>e_index = 1, e_start = 1, e_end = 3.5, e_text = js ''Hello there , friend!''\<rparr>,
      \<lparr>e_index = 2, e_start = fround 5.2, e_end = 7, e_text = js ''This is a test.''\<rparr>]"
  by (rule parse_doc)




text \<open>Claim C7, as stated: the starts of the entries of two adjacent chapters would differ by
  at least \<open>minGapSec\<close>. For two entries that start at the doubles 4.8 and 64.8, with the
  gap of 60 seconds of the default options, both chapters are returned: the source subtracts
  doubles and the difference rounds to 60, while the starts differ by \<open>60 - 3 / 2\<^sup>5\<^sup>0\<close>.\<close>

theorem gap_and_eligibility_counterexample:
  "extractChaptersFromSrt lowerBasicLatin (Parsed exGap) None =
     [\<lparr>c_at = js ''00'', c_title = js ''Hello World And Welcome''\<rparr>,
      \<lparr>c_at = js ''01'', c_title = js ''Second Part Of The Talk''\<rparr>]
   \<and> extractWithSources lowerBasicLatin (Parsed exGap) None =
     [(\<lparr>c_at = js ''00'', c_title = js ''Hello World And Welcome''\<rparr>, Some (exGap ! 0)),
      (\<lparr>c_at = js ''01'', c_title = js ''Second Part Of The Talk''\<rparr>, Some (exGap ! 1))]
   \<and> getMinGapSec None = 60
   \<and> \<bar>e_start (exGap ! 1) - e_start (exGap ! 0)\<bar> < 60"
proof -
  have "extractChaptersFromSrt lowerBasicLatin (Parsed exGap) None
      = map fst (extractWithSources lowerBasicLatin (Parsed exGap) None)"
    by (simp add: extract_sources)
  then have "extractChaptersFromSrt lowerBasicLatin (Parsed exGap) None =
     [\<lparr>c_at = js ''00'', c_title = js ''Hello World And Welcome''\<rparr>,
      \<lparr>c_at = js ''01'', c_title = js ''Second Part Of The Talk''\<rparr>]"
    by (simp add: exGap_sources)
  moreover have "\<bar>e_start (exGap ! 1) - e_start (exGap ! 0)\<bar> < 60"
    by (simp add: exGap_def fround_gap)
  ultimately show ?thesis using exGap_sources by (simp add: getNone)
qed

text \<open>Claim C7, amended: \<open>extractWithSources\<close> returns the chapters of
  \<open>extractChaptersFromSrt\<close>, each with the entry it was made from (\<open>None\<close> for the chapter
  put in front at \<open>"00"\<close>). Whenever two adjacent chapters of the result both come from
  entries, the difference of the starts of these entries, rounded to a double as the source
  computes it, is at least \<open>minGapSec\<close> in absolute value; when \<open>minGapSec\<close> is not negative
  the rounded difference of the later start and the earlier one is at least \<open>minGapSec\<close>, so
  that the starts themselves differ by at least \<open>minGapSec / (1 + 2\<^sup>-\<^sup>5\<^sup>3)\<close>. And every chapter
  that comes from an entry is made from an entry of the input whose text has a word character
  and at least 18 code units.\<close>

theorem gap_and_eligibility:
  "map fst (extractWithSources toLowerCase rawOrEntries opts)
      = extractChaptersFromSrt toLowerCase rawOrEntries opts
   \<and> (\<forall>i e1 e2.
        Suc i < length (extractWithSources toLowerCase rawOrEntries opts)
        \<and> snd (extractWithSources toLowerCase rawOrEntries opts ! i) = Some e1
        \<and> snd (extractWithSources toLowerCase rawOrEntries opts ! Suc i) = Some e2
        \<longrightarrow> getMinGapSec opts \<le> \<bar>fround (e_start e2 - e_start e1)\<bar>
            \<and> (0 \<le> getMinGapSec opts \<longrightarrow>
                   getMinGapSec opts \<le> fround (e_start e2 - e_start e1)
                 \<and> getMinGapSec opts \<le> (e_start e2 - e_start e1) * (1 + 1 / 2 ^ 53)))
   \<and> (\<forall>x \<in> set (extractWithSources toLowerCase rawOrEntries opts).
        \<forall>e. snd x = Some e \<longrightarrow>
          e \<in> set (inputEntries rawOrEntries)
          \<and> fst x = mkChapter (getTitleMaxLen opts) (getPreferSentenceEnds opts) e
          \<and> list_ex isWord (e_text e) \<and> 18 \<le> length (e_text e))"
proof -
  let ?out = "extractWithSources toLowerCase rawOrEntries opts"
  let ?g = "getMinGapSec opts"
  let ?A = "assembleSources ?g (getTitleMaxLen opts) (getPreferSentenceEnds opts) (inputEntries rawOrEntries)"
  let ?R = "\<lambda>x y. \<forall>e1 e2. snd x = Some e1 \<and> snd y = Some e2 \<longrightarrow> ?g \<le> fround (e_start e2 - e_start (e1::SrtEntry))"
  have sub: "set ?out \<subseteq> set ?A"
  proof (cases "inputEntries rawOrEntries = []")
    case True
    then show ?thesis by (simp add: extractWithSources_def)
  next
    case False
    then have "?out = keepByPrev (\<lambda>x. chapterKey toLowerCase (fst x)) [] ?A"
      by (simp add: extractWithSources_def)
    then show ?thesis using keepByPrev_subset[of "\<lambda>x. chapterKey toLowerCase (fst x)" "[]" ?A] by simp
  qed
  have srt: "sorted_wrt ?R ?out" if "0 \<le> ?g"
  proof (cases "inputEntries rawOrEntries = []")
    case True
    then show ?thesis by (simp add: extractWithSources_def)
  next
    case False
    have "sorted_wrt ?R ?A" using that by (rule assembleSources_sorted)
    then have "sorted_wrt ?R (keepByPrev (\<lambda>x. chapterKey toLowerCase (fst x)) [] ?A)"
      by (rule keepByPrev_sorted_wrt)
    then show ?thesis using False by (simp add: extractWithSources_def)
  qed
  have gap: "?g \<le> \<bar>fround (e_start e2 - e_start e1)\<bar>
      \<and> (0 \<le> ?g \<longrightarrow> ?g \<le> fround (e_start e2 - e_start e1)
                     \<and> ?g \<le> (e_start e2 - e_start e1) * (1 + 1 / 2 ^ 53))"
    if h: "Suc i < length ?out" "snd (?out ! i) = Some e1" "snd (?out ! Suc i) = Some e2" for i e1 e2
  proof (cases "0 \<le> ?g")
    case True
    have "?R (?out ! i) (?out ! Suc i)"
      using sorted_wrt_nth_less[OF srt[OF True], of i "Suc i"] h(1) by simp
    then have a: "?g \<le> fround (e_start e2 - e_start e1)" using h by blast
    then have "0 \<le> fround (e_start e2 - e_start e1)" using True by linarith
    then have "0 \<le> e_start e2 - e_start e1" by (rule fround_nonneg_D)
    from fround_upper[OF this] have "?g \<le> (e_start e2 - e_start e1) * (1 + 1 / 2 ^ 53)"
      using a by linarith
    then show ?thesis using a by simp
  next
    case False
    then show ?thesis by simp
  qed
  have el: "e \<in> set (inputEntries rawOrEntries)
          \<and> fst x = mkChapter (getTitleMaxLen opts) (getPreferSentenceEnds opts) e
          \<and> list_ex isWord (e_text e) \<and> 18 \<le> length (e_text e)"
    if "x \<in> set ?out" "snd x = Some e" for x e
  proof -
    have "x \<in> set ?A" using that sub by blast
    from assembleSources_elems[OF this] that(2) show ?thesis by (auto simp: contentful_def)
  qed
  show ?thesis
  proof (intro conjI)
    show "map fst ?out = extractChaptersFromSrt toLowerCase rawOrEntries opts"
      by (rule extract_sources)
    show "\<forall>i e1 e2. Suc i < length ?out \<and> snd (?out ! i) = Some e1 \<and> snd (?out ! Suc i) = Some e2
        \<longrightarrow> ?g \<le> \<bar>fround (e_start e2 - e_start e1)\<bar>
            \<and> (0 \<le> ?g \<longrightarrow> ?g \<le> fround (e_start e2 - e_start e1)
                     \<and> ?g \<le> (e_start e2 - e_start e1) * (1 + 1 / 2 ^ 53))"
      using gap by blast
    show "\<forall>x \<in> set ?out. \<forall>e. snd x = Some e \<longrightarrow>
          e \<in> set (inputEntries rawOrEntries)
          \<and> fst x = mkChapter (getTitleMaxLen opts) (getPreferSentenceEnds opts) e
          \<and> list_ex isWord (e_text e) \<and> 18 \<le> length (e_text e)"
      using el by blast
  qed
qed

theorem gap_and_eligibility_witness:
  "Suc 0 < length (extractWithSources lowerBasicLatin (Parsed ex3) None)
   \<and> snd (extractWithSources lowerBasicLatin (Parsed ex3) None ! 0) = Some (ex3 ! 0)
   \<and> snd (extractWithSources lowerBasicLatin (Parsed ex3) None ! Suc 0) = Some (ex3 ! 2)
   \<and> getMinGapSec None \<le> \<bar>fround (e_start (ex3 ! 2) - e_start (ex3 ! 0))\<bar>
   \<and> 0 \<le> getMinGapSec None
   \<and> getMinGapSec None \<le> fround (e_start (ex3 ! 2) - e_start (ex3 ! 0))
   \<and> getMinGapSec None \<le> (e_start (ex3 ! 2) - e_start (ex3 ! 0)) * (1 + 1 / 2 ^ 53)
   \<and> 18 \<le> length (e_text (ex3 ! 2))"
proof -
  let ?out = "extractWithSources lowerBasicLatin (Parsed ex3) None"
  have h: "Suc 0 < length ?out" "snd (?out ! 0) = Some (ex3 ! 0)" "snd (?out ! Suc 0) = Some (ex3 ! 2)"
    by (simp_all add: ex3_sources)
  have g0: "0 \<le> getMinGapSec None" by (simp add: getNone)
  have m: "?out ! Suc 0 \<in> set ?out" using h(1) by (intro nth_mem) simp
  note t = gap_and_eligibility[of lowerBasicLatin "Parsed ex3" None]
  from t have "getMinGapSec None \<le> \<bar>fround (e_start (ex3 ! 2) - e_start (ex3 ! 0))\<bar>
      \<and> (0 \<le> getMinGapSec None \<longrightarrow>
             getMinGapSec None \<le> fround (e_start (ex3 ! 2) - e_start (ex3 ! 0))
           \<and> getMinGapSec None \<le> (e_start (ex3 ! 2) - e_start (ex3 ! 0)) * (1 + 1 / 2 ^ 53))"
    using h by blast
  moreover from t have "18 \<le> length (e_text (ex3 ! 2))" using m h(3) by blast
  ultimately show ?thesis using h g0 by simp
qed

text \<open>Claim C3, as stated: a non-empty sequence of entries would always give a list with
  exactly one chapter at \<open>"00"\<close>. The raw text of one cue whose text is \<open>_\<close> parses to one
  entry, and the result is empty: the title \<open>_\<close> has an empty key, and the last pass drops
  the chapter put in front.\<close>

theorem zero_anchor_counterexample:
  "parseSrt rawU = [\<lparr>e_index = 1, e_start = 1, e_end = 2, e_text = js ''_''\<rparr>]
   \<and> extractChaptersFromSrt lowerBasicLatin (Raw rawU) None = []"
proof -
  have e: "inputEntries (Raw rawU) = [\<lparr>e_index = 1, e_start = 1, e_end = 2, e_text = js ''_''\<rparr>]"
    by (simp add: inputEntries_def rawU_parse)
  have nc: "\<not> contentful \<lparr>e_index = a, e_start = 1, e_end = 2, e_text = js ''_''\<rparr>" for a
    by (simp add: contentful_def js_def)
  have q: "js ''_'' \<noteq> []" by (simp add: js_def)
  have a: "assemble 60 48 True [\<lparr>e_index = 1, e_start = 1, e_end = 2, e_text = js ''_''\<rparr>]
      = [\<lparr>c_at = js ''00'', c_title = js ''_''\<rparr>]"
    unfolding assemble_def Let_def by (simp add: nc q ptU)
  have "extractChaptersFromSrt lowerBasicLatin (Raw rawU) None = []"
    unfolding extract_keep e getNone a by (simp add: kU)
  then show ?thesis using rawU_parse by simp
qed

text \<open>Claim C3, amended: for a non-empty sequence of entries the list assembled before the
  last pass holds exactly one chapter at \<open>"00"\<close>; the returned list holds at most one, and
  holds one exactly when a chapter at \<open>"00"\<close> of the assembled list has a key that is not
  empty and differs from the key of the chapter just before it (from the empty key, when it
  is the first).\<close>

theorem zero_anchor:
  assumes "inputEntries rawOrEntries \<noteq> []"
  shows "length (filter (\<lambda>c. c_at c = js ''00'')
            (assemble (getMinGapSec opts) (getTitleMaxLen opts) (getPreferSentenceEnds opts)
               (inputEntries rawOrEntries))) = 1
       \<and> length (filter (\<lambda>c. c_at c = js ''00'')
            (extractChaptersFromSrt toLowerCase rawOrEntries opts)) \<le> 1
       \<and> ((\<exists>c \<in> set (extractChaptersFromSrt toLowerCase rawOrEntries opts). c_at c = js ''00'')
            \<longleftrightarrow>
          (\<exists>i < length (assemble (getMinGapSec opts) (getTitleMaxLen opts)
                          (getPreferSentenceEnds opts) (inputEntries rawOrEntries)).
              c_at (assemble (getMinGapSec opts) (getTitleMaxLen opts)
                      (getPreferSentenceEnds opts) (inputEntries rawOrEntries) ! i) = js ''00''
              \<and> chapterKey toLowerCase (assemble (getMinGapSec opts) (getTitleMaxLen opts)
                      (getPreferSentenceEnds opts) (inputEntries rawOrEntries) ! i) \<noteq> []
              \<and> chapterKey toLowerCase (assemble (getMinGapSec opts) (getTitleMaxLen opts)
                      (getPreferSentenceEnds opts) (inputEntries rawOrEntries) ! i)
                 \<noteq> (if i = 0 then []
                     else chapterKey toLowerCase (assemble (getMinGapSec opts) (getTitleMaxLen opts)
                            (getPreferSentenceEnds opts) (inputEntries rawOrEntries) ! (i - 1)))))"
proof -
  let ?A = "assemble (getMinGapSec opts) (getTitleMaxLen opts) (getPreferSentenceEnds opts)
               (inputEntries rawOrEntries)"
  let ?out = "extractChaptersFromSrt toLowerCase rawOrEntries opts"
  have out: "?out = keepByPrev (chapterKey toLowerCase) [] ?A"
    using assms by (simp add: extract_keep)
  have dA: "distinct (map c_at ?A)" by (rule assemble_distinct)
  have "js ''00'' \<in> c_at ` set ?A"
    using assemble_has00[of "getMinGapSec opts" "getTitleMaxLen opts" "getPreferSentenceEnds opts"
        "inputEntries rawOrEntries"] by force
  then have one: "length (filter (\<lambda>c. c_at c = js ''00'') ?A) = 1"
    using distinct_count1[OF dA, of "js ''00''"] by simp
  have dO: "distinct (map c_at ?out)" unfolding out using dA by (rule keepByPrev_distinct)
  have le: "length (filter (\<lambda>c. c_at c = js ''00'') ?out) \<le> 1"
    using distinct_count1[OF dO, of "js ''00''"] by simp
  have iff: "(\<exists>c \<in> set ?out. c_at c = js ''00'') \<longleftrightarrow>
      (\<exists>i < length ?A. c_at (?A ! i) = js ''00'' \<and> chapterKey toLowerCase (?A ! i) \<noteq> []
          \<and> chapterKey toLowerCase (?A ! i)
               \<noteq> (if i = 0 then [] else chapterKey toLowerCase (?A ! (i - 1))))"
    (is "?L \<longleftrightarrow> ?R")
  proof
    assume ?L
    then obtain c where c: "c \<in> set (keepByPrev (chapterKey toLowerCase) [] ?A)" "c_at c = js ''00''"
      unfolding out by blast
    from c(1) obtain i where i: "i < length ?A" "?A ! i = c" "chapterKey toLowerCase c \<noteq> []"
      "chapterKey toLowerCase c \<noteq> (if i = 0 then [] else chapterKey toLowerCase (?A ! (i - 1)))"
      unfolding keepByPrev_nth by blast
    show ?R
      by (rule exI[of _ i]) (use i c(2) in simp)
  next
    assume ?R
    then obtain i where i: "i < length ?A" "c_at (?A ! i) = js ''00''"
      "chapterKey toLowerCase (?A ! i) \<noteq> []"
      "chapterKey toLowerCase (?A ! i) \<noteq> (if i = 0 then [] else chapterKey toLowerCase (?A ! (i - 1)))"
      by blast
    have "?A ! i \<in> set (keepByPrev (chapterKey toLowerCase) [] ?A)"
      unfolding keepByPrev_nth by (rule exI[of _ i]) (use i in simp)
    then show ?L unfolding out using i(2) by blast
  qed
  show ?thesis
  proof (intro conjI)
    show "length (filter (\<lambda>c. c_at c = js ''00'') ?A) = 1" by (rule one)
    show "length (filter (\<lambda>c. c_at c = js ''00'') ?out) \<le> 1" by (rule le)
    show "?L \<longleftrightarrow> ?R" by (rule iff)
  qed
qed

theorem zero_anchor_witness:
  "inputEntries (Parsed ex3) \<noteq> []
   \<and> length (filter (\<lambda>c. c_at c = js ''00'')
        (assemble (getMinGapSec None) (getTitleMaxLen None) (getPreferSentenceEnds None)
           (inputEntries (Parsed ex3)))) = 1
   \<and> length (filter (\<lambda>c. c_at c = js ''00'')
        (extractChaptersFromSrt lowerBasicLatin (Parsed ex3) None)) \<le> 1"
proof -
  have h: "inputEntries (Parsed ex3) \<noteq> []" by (simp add: inputEntries_def ex3_def)
  show ?thesis using h zero_anchor[OF h, of None lowerBasicLatin] by blast
qed

text \<open>Claim C8, as stated: a chapter would be kept exactly when its key is not empty and
  differs from the key of the chapter kept last. For three entries a minute apart with the
  texts \<open>Hello world and welcome\<close>, eighteen underscores and \<open>Hello world and welcome\<close>,
  the chapter in the middle has an empty key and is dropped, and the third chapter is kept
  although its key is the key of the chapter kept last.\<close>

theorem title_dedup_counterexample:
  "assemble 60 48 True ex3 =
     [\<lparr>c_at = js ''00'', c_title = js ''Hello World And Welcome''\<rparr>,
      \<lparr>c_at = js ''01'', c_title = js ''__________________''\<rparr>,
      \<lparr>c_at = js ''02'', c_title = js ''Hello World And Welcome''\<rparr>]
   \<and> extractChaptersFromSrt lowerBasicLatin (Parsed ex3) None =
     [\<lparr>c_at = js ''00'', c_title = js ''Hello World And Welcome''\<rparr>,
      \<lparr>c_at = js ''02'', c_title = js ''Hello World And Welcome''\<rparr>]
   \<and> normKey lowerBasicLatin (js ''Hello World And Welcome'') \<noteq> []
   \<and> normKey lowerBasicLatin (js ''__________________'') = []"
proof -
  have "normKey lowerBasicLatin (js ''Hello World And Welcome'') \<noteq> []"
    "normKey lowerBasicLatin (js ''__________________'') = []"
    using k1[of "[]"] kne by (simp_all add: chapterKey_def)
  then show ?thesis using as3 ex3_extract by simp
qed

text \<open>Claim C8, amended: with the key of a title being the title in lower case, every run of
  code units other than \<open>a-z\<close> and \<open>0-9\<close> replaced by one space, trimmed, a chapter of the
  assembled list is returned exactly when its key is not empty and differs from the key of
  the chapter just before it in the assembled list, kept or dropped (from the empty key, for
  the first chapter).\<close>

theorem title_dedup:
  "extractChaptersFromSrt toLowerCase rawOrEntries opts =
     (if inputEntries rawOrEntries = [] then []
      else map snd
             (filter (\<lambda>(p, c). chapterKey toLowerCase c \<noteq> [] \<and> chapterKey toLowerCase c \<noteq> p)
                (zip ([] # map (chapterKey toLowerCase)
                        (assemble (getMinGapSec opts) (getTitleMaxLen opts)
                           (getPreferSentenceEnds opts) (inputEntries rawOrEntries)))
                     (assemble (getMinGapSec opts) (getTitleMaxLen opts)
                        (getPreferSentenceEnds opts) (inputEntries rawOrEntries)))))"
  unfolding extract_keep keepByPrev_filter ..




text \<open>Claim C4, as stated: \<open>cleanLine(cleanLine(s)) = cleanLine(s)\<close> for every string. For
  \<open>A: B: c\<close> the first pass strips the label \<open>A:\<close> and leaves \<open>B: c\<close>, and the second
  pass strips \<open>B:\<close> as a further label. For \<open>x (ab cd))\<close> the first pass strips the cue
  \<open>(ab cd)\<close> and leaves \<open>x )\<close>, which the second pass strips as a further cue.\<close>

theorem cleanLine_idempotent_counterexample:
  "cleanLine (js ''A: B: c'') = js ''B: c''
   \<and> cleanLine (cleanLine (js ''A: B: c'')) = js ''c''
   \<and> cleanLine (cleanLine (js ''A: B: c'')) \<noteq> cleanLine (js ''A: B: c'')
   \<and> cleanLine (js ''x (ab cd))'') = js ''x )''
   \<and> cleanLine (cleanLine (js ''x (ab cd))'')) = []
   \<and> cleanLine (cleanLine (js ''x (ab cd))'')) \<noteq> cleanLine (js ''x (ab cd))'')"
  by (simp add: clean_label1 clean_label2 clean_cue1 clean_cue2) (simp add: js_def)

text \<open>Claim C4, amended: \<open>cleanLine(cleanLine(s)) = cleanLine(s)\<close> for every string \<open>s\<close> whose
  cleaned text has no further speaker label at its start and no further bracketed cue, that
  is, the label step and the cue step leave it as it is. The other steps (byte-order mark,
  control characters, tags, override blocks, quotes, dashes, white space, trimming, the test
  for punctuation only) never change a cleaned text.\<close>

theorem cleanLine_idempotent:
  assumes "replaceStart reSpeaker [] (cleanLine s) = cleanLine s"
    and "replaceAll reCue [32] (cleanLine s) = cleanLine s"
  shows "cleanLine (cleanLine s) = cleanLine s"
proof (cases "cleanLine s = []")
  case True
  then show ?thesis by (simp add: cleanLine_Nil)
next
  case False
  define t where "t = cleanLine s"
  have tc: "t = cleanCore s" and np: "\<not> testAnchored [pPlus isPunct] True t"
    using False unfolding t_def cleanLine_core by (auto split: if_splits)
  have col: "collapsed t" unfolding tc by (rule cleanCore_collapsed)
  have chars: "31 < x \<and> x \<noteq> 8220 \<and> x \<noteq> 8221 \<and> x \<noteq> 8216 \<and> x \<noteq> 8217 \<and> x \<noteq> 8211 \<and> x \<noteq> 8212"
    if "x \<in> set t" for x using that cleanCore_chars unfolding tc by blast
  have nobom: "x \<noteq> 65279" if "x \<in> set t" for x
    using collapsed_space[OF col that] by (auto simp: isSpace_def)
  have b0: "replaceAll reBom [] t = t"
    by (rule replaceAll_absent[of "ch 65279" 1 "Some 1" Greedy])
       (use nobom in \<open>auto simp: reBom_def pOne_def ch_def\<close>)
  have gt: "\<not> x \<le> 31" if "x \<in> set t" for x using chars[OF that] by simp
  have b1: "replaceAll reCtrl [32] t = t"
    by (rule replaceAll_absent[of "\<lambda>c. c \<le> 31" 1 "Some 1" Greedy])
       (use gt in \<open>simp_all add: reCtrl_def pOne_def\<close>)
  have b2: "replaceAll reHtml [32] t = t"
    unfolding tc by (rule stable_fix) (rule html_clean)
  have b3: "replaceAll reAss [32] t = t"
    unfolding tc by (rule stable_fix) (rule ass_clean)
  have b4: "replaceStart reSpeaker [] t = t" using assms(1) by (simp add: t_def)
  have b5: "replaceAll reCue [32] t = t" using assms(2) by (simp add: t_def)
  have b6: "replaceAll reDquote [34] t = t"
    by (rule replaceAll_absent[of "\<lambda>c. c = 8220 \<or> c = 8221" 1 "Some 1" Greedy])
       (use chars in \<open>auto simp: reDquote_def pOne_def\<close>)
  have b7: "replaceAll reSquote [39] t = t"
    by (rule replaceAll_absent[of "\<lambda>c. c = 8216 \<or> c = 8217" 1 "Some 1" Greedy])
       (use chars in \<open>auto simp: reSquote_def pOne_def\<close>)
  have b8: "replaceAll reDash [45] t = t"
    by (rule replaceAll_absent[of "\<lambda>c. c = 8211 \<or> c = 8212" 1 "Some 1" Greedy])
       (use chars in \<open>auto simp: reDash_def pOne_def\<close>)
  have b9: "replaceAll reSpaces [32] t = t" using col by (rule collapsed_fix)
  have b10: "trim t = t" unfolding tc by (rule cleanCore_trim)
  have "cleanCore t = t"
    unfolding cleanCore_def b0 b1 b2 b3 b4 b5 b6 b7 b8 b9 b10 ..
  then have "cleanLine t = t" unfolding cleanLine_core using np by simp
  then show ?thesis by (simp add: t_def)
qed

theorem cleanLine_idempotent_witness:
  "replaceStart reSpeaker [] (cleanLine (js ''a < b'')) = cleanLine (js ''a < b'')
   \<and> replaceAll reCue [32] (cleanLine (js ''a < b'')) = cleanLine (js ''a < b'')
   \<and> cleanLine (js ''a < b'') = js ''a < b''
   \<and> cleanLine (cleanLine (js ''a < b'')) = cleanLine (js ''a < b'')
   \<and> replaceStart reSpeaker [] (cleanLine (js ''Hello <b>there</b>, friend!''))
        = cleanLine (js ''Hello <b>there</b>, friend!'')
   \<and> replaceAll reCue [32] (cleanLine (js ''Hello <b>there</b>, friend!''))
        = cleanLine (js ''Hello <b>there</b>, friend!'')
   \<and> cleanLine (cleanLine (js ''Hello <b>there</b>, friend!''))
        = cleanLine (js ''Hello <b>there</b>, friend!'')"
proof -
  let ?t = "cleanLine (js ''Hello <b>there</b>, friend!'')"
  let ?u = "cleanLine (js ''a < b'')"
  have h3: "replaceStart reSpeaker [] ?t = ?t" unfolding c1 by (simp add: evs)
  have h4: "replaceAll reCue [32] ?t = ?t" unfolding c1 by (simp add: evs)
  have g3: "replaceStart reSpeaker [] ?u = ?u" unfolding clean_lt by (simp add: evs)
  have g4: "replaceAll reCue [32] ?u = ?u" unfolding clean_lt by (simp add: evs)
  show ?thesis
    using h3 h4 g3 g4 clean_lt cleanLine_idempotent[OF h3 h4] cleanLine_idempotent[OF g3 g4] by simp
qed

end
